theory Spec2Isabelle
  imports Complex_Main "HOL-Library.Multiset" "HOL-Library.AList"
begin

section \<open>Python values\<close>

text \<open>
  The repository is two Python modules: \<^verbatim>\<open>shared_mesh.py\<close> (class \<^verbatim>\<open>SharedMesh\<close>: a uniform
  grid over particle positions, built collectively over MPI ranks and queried locally) and
  \<^verbatim>\<open>snapshot_datasets.py\<close> (class \<^verbatim>\<open>SnapshotDatasets\<close>: a table from dataset names to
  (particle type, dataset) pairs).

  Every exception the code can raise is a value of \<open>py_error\<close>; a function that can raise
  returns \<open>py_error + 'a\<close>. The value \<open>Stalled\<close> is not an exception: it is the outcome of a
  collective construction in which some ranks raised before a collective MPI call and
  the others wait in that call for ever.
\<close>

datatype py_error =
    ValueError
  | IndexError
  | KeyError string
  | AttributeError
  | Stalled

fun bind_err :: "py_error + 'a \<Rightarrow> ('a \<Rightarrow> py_error + 'b) \<Rightarrow> py_error + 'b" where
  "bind_err (Inl e) f = Inl e"
| "bind_err (Inr x) f = f x"

text \<open>Running a fallible step over a list, left to right; the first exception ends the run.\<close>

fun collect :: "(py_error + 'a) list \<Rightarrow> py_error + 'a list" where
  "collect [] = Inr []"
| "collect (Inl e # rs) = Inl e"
| "collect (Inr x # rs) = (case collect rs of Inl e \<Rightarrow> Inl e | Inr xs \<Rightarrow> Inr (x # xs))"

text \<open>
  The ranks of a communicator each run the same step and then meet in a collective call.
  \<open>outcomes\<close> lists what the step did on each rank, rank 0 first. When every rank raised,
  the construction ends with the exception (that of rank 0 stands for all); when some
  ranks raised and others did not, those wait in the collective call and the construction
  never returns; when none raised it goes on.
\<close>

definition collective :: "(py_error + 'a) list \<Rightarrow> py_error + 'b \<Rightarrow> py_error + 'b" where
  "collective outcomes continue =
     (if list_ex isl outcomes
      then (case outcomes of
              Inl e # _ \<Rightarrow> if list_all isl outcomes then Inl e else Inl Stalled
            | _ \<Rightarrow> Inl Stalled)
      else continue)"

section \<open>numpy arithmetic used by the mesh\<close>

text \<open>
  Coordinates are float64. The model takes a finite float64 to be the real number it
  denotes and computes \<open>+\<close>, \<open>-\<close>, \<open>*\<close> and a division by a nonzero number exactly: rounding,
  overflow to \<open>inf\<close> and underflow to zero of these operations are not modelled. What numpy
  does where real arithmetic has no answer is modelled: a division by zero does not raise,
  it gives \<open>inf\<close>, \<open>-inf\<close> or \<open>nan\<close>. A statement below that depends on the exact value of a
  quotient, a sum or a product of coordinates is therefore a statement about real
  arithmetic, and says so; the statements on ranges after the clip, on axes without extent
  and on the fixed examples do not depend on it.
\<close>

datatype np_float = Num real | PInf | NInf | NaN

type_synonym vec3 = "real \<times> real \<times> real"

text \<open>The column \<^verbatim>\<open>v[d]\<close> of a three-component array, \<open>d\<close> one of the axes 0, 1, 2.\<close>

datatype axis = X | Y | Z

fun coord :: "axis \<Rightarrow> 'a \<times> 'a \<times> 'a \<Rightarrow> 'a" where
  "coord X (x, y, z) = x"
| "coord Y (x, y, z) = y"
| "coord Z (x, y, z) = z"

text \<open>Component-wise \<open>\<le>\<close> and \<open><\<close> on positions.\<close>

definition vle :: "vec3 \<Rightarrow> vec3 \<Rightarrow> bool" where
  "vle a b \<longleftrightarrow> coord X a \<le> coord X b \<and> coord Y a \<le> coord Y b \<and> coord Z a \<le> coord Z b"

definition vlt :: "vec3 \<Rightarrow> vec3 \<Rightarrow> bool" where
  "vlt a b \<longleftrightarrow> coord X a < coord X b \<and> coord Y a < coord Y b \<and> coord Z a < coord Z b"

text \<open>
  \<^verbatim>\<open>a / b\<close> for a finite \<open>a\<close>: IEEE 754 division. A zero divisor is taken as \<open>+0.0\<close>; the
  sign of a zero or of an infinity never reaches a result, since the cast below sends
  both infinities and nan to the same integer.
\<close>

fun np_divide :: "real \<Rightarrow> np_float \<Rightarrow> np_float" where
  "np_divide a (Num b) =
     (if b \<noteq> 0 then Num (a / b)
      else if 0 < a then PInf
      else if a < 0 then NInf
      else NaN)"
| "np_divide a PInf = Num 0"
| "np_divide a NInf = Num 0"
| "np_divide a NaN = NaN"

fun np_floor :: "np_float \<Rightarrow> np_float" where
  "np_floor (Num x) = Num (of_int \<lfloor>x\<rfloor>)"
| "np_floor v = v"

definition int32_min :: int where
  "int32_min = - (2 ^ 31)"

text \<open>
  \<^verbatim>\<open>.astype(np.int32)\<close>: the C conversion of a double to a 32-bit integer. It truncates
  towards zero. For a value outside the int32 range, an infinity or a nan the C standard
  leaves the result open; numpy on x86-64 (the \<^verbatim>\<open>cvttsd2si\<close> instruction) returns the
  smallest int32, and that is what the model returns.
\<close>

fun astype_int32 :: "np_float \<Rightarrow> int" where
  "astype_int32 (Num x) =
     (let t = (if 0 \<le> x then \<lfloor>x\<rfloor> else \<lceil>x\<rceil>)
      in if int32_min \<le> t \<and> t < 2 ^ 31 then t else int32_min)"
| "astype_int32 v = int32_min"

text \<open>\<^verbatim>\<open>np.clip(x, lo, hi)\<close> is \<^verbatim>\<open>minimum(maximum(x, lo), hi)\<close>.\<close>

definition np_clip :: "int \<Rightarrow> int \<Rightarrow> int \<Rightarrow> int" where
  "np_clip x lo hi = min (max x lo) hi"

text \<open>int32 arithmetic on arrays wraps around silently.\<close>

definition wrap32 :: "int \<Rightarrow> int" where
  "wrap32 x = (x + 2 ^ 31) mod 2 ^ 32 - 2 ^ 31"

text \<open>
  The per-axis cell coordinate, the expression
  \<^verbatim>\<open>np.clip(np.floor((x - self.pos_min) / self.cell_size).astype(np.int32), 0, self.resolution-1)\<close>
  that \<^verbatim>\<open>__init__\<close>, \<^verbatim>\<open>query\<close> and \<^verbatim>\<open>query_radius\<close> each apply to every axis.
\<close>

definition axis_cell :: "int \<Rightarrow> real \<Rightarrow> np_float \<Rightarrow> real \<Rightarrow> int" where
  "axis_cell res lo cs x =
     np_clip (astype_int32 (np_floor (np_divide (x - lo) cs))) 0 (res - 1)"

fun cell_coords :: "int \<Rightarrow> vec3 \<Rightarrow> np_float \<times> np_float \<times> np_float \<Rightarrow> vec3 \<Rightarrow> int \<times> int \<times> int" where
  "cell_coords res (lx, ly, lz) (cx, cy, cz) (x, y, z) =
     (axis_cell res lx cx x, axis_cell res ly cy y, axis_cell res lz cz z)"

text \<open>
  Line 39 of \<^verbatim>\<open>__init__\<close>: \<^verbatim>\<open>cell_idx[:,0] + resolution*cell_idx[:,1] + (resolution**2)*cell_idx[:,2]\<close>
  on an int32 array.
\<close>

fun linear_idx32 :: "int \<Rightarrow> int \<times> int \<times> int \<Rightarrow> int" where
  "linear_idx32 res (i, j, k) = wrap32 (i + res * j + res ^ 2 * k)"

text \<open>
  \<^verbatim>\<open>np.bincount(ks, minlength=n)\<close>: raises on a negative entry and on a negative
  \<open>minlength\<close>; the result has \<open>max n (max ks + 1)\<close> entries.
\<close>

definition bincount :: "int list \<Rightarrow> int \<Rightarrow> py_error + nat list" where
  "bincount ks n =
     (if n < 0 \<or> list_ex (\<lambda>k. k < 0) ks then Inl ValueError
      else Inr (map (\<lambda>c. count_list ks (int c)) [0 ..< max (nat n) (nat (fold max ks (- 1) + 1))]))"

text \<open>\<^verbatim>\<open>np.cumsum\<close>, with the running total as an argument.\<close>

fun cumsum_from :: "nat \<Rightarrow> nat list \<Rightarrow> nat list" where
  "cumsum_from acc [] = []"
| "cumsum_from acc (x # xs) = (acc + x) # cumsum_from (acc + x) xs"

definition cumsum :: "nat list \<Rightarrow> nat list" where
  "cumsum xs = cumsum_from 0 xs"

text \<open>\<^verbatim>\<open>np.amin(a, axis=0)\<close> and \<^verbatim>\<open>np.amax(a, axis=0)\<close> raise on an array with no rows.\<close>

fun vmin :: "vec3 \<Rightarrow> vec3 \<Rightarrow> vec3" where
  "vmin (a, b, c) (x, y, z) = (min a x, min b y, min c z)"

fun vmax :: "vec3 \<Rightarrow> vec3 \<Rightarrow> vec3" where
  "vmax (a, b, c) (x, y, z) = (max a x, max b y, max c z)"

fun amin :: "vec3 list \<Rightarrow> py_error + vec3" where
  "amin [] = Inl ValueError"
| "amin (p # ps) = Inr (fold vmin ps p)"

fun amax :: "vec3 list \<Rightarrow> py_error + vec3" where
  "amax [] = Inl ValueError"
| "amax (p # ps) = Inr (fold vmax ps p)"

section \<open>SharedMesh\<close>

record shared_mesh =
  pos_min :: vec3
  pos_max :: vec3
  resolution :: int
  cell_size :: "np_float \<times> np_float \<times> np_float"
  cell_count :: "nat list"
  cell_offset :: "nat list"
  sort_idx :: "nat list"


text \<open>
  Modelled from the spec: the class \<^verbatim>\<open>SharedArray\<close> of \<^verbatim>\<open>shared_array.py\<close> is not among the
  source files. By section 6 of the specification every rank writes its own part through
  the view \<^verbatim>\<open>local\<close>, and after \<^verbatim>\<open>sync()\<close> the view \<^verbatim>\<open>full\<close> shows every rank all the parts;
  the parts follow each other in rank order, so that a place in \<^verbatim>\<open>full\<close> is a global
  index. An array that only rank 0 gives a shape (the cell counts and offsets) is its part.
\<close>

definition shared_full :: "'a list list \<Rightarrow> 'a list" where
  "shared_full locals = concat locals"

text \<open>
  \<^verbatim>\<open>ps.parallel_sort(cell_idx, comm=comm, return_index=True)\<close> belongs to the library
  \<^verbatim>\<open>virgo\<close>, not to this repository. It is a parameter of the model: a function from the
  ranks' key arrays to the ranks' index arrays. Its contract: every rank gets as many
  indices as it gave keys, and the index arrays, one after the other in rank order, are a
  permutation of the global indices that puts the keys in ascending order (place \<open>j\<close>
  holds the global index of the element that is \<open>j\<close>-th in sorted order, which is how
  \<^verbatim>\<open>query\<close> reads it). The order among equal keys is left open.
\<close>

definition argsort_ok :: "(int list list \<Rightarrow> nat list list) \<Rightarrow> bool" where
  "argsort_ok parallel_sort \<longleftrightarrow>
     (\<forall>kss. map length (parallel_sort kss) = map length kss \<and>
            mset (concat (parallel_sort kss)) = mset [0 ..< length (concat kss)] \<and>
            sorted (map (\<lambda>i. concat kss ! i) (concat (parallel_sort kss))))"

text \<open>
  One function that meets the contract: the stable sort of the global indices by key,
  dealt out to the ranks in pieces of the lengths they gave.
\<close>

fun chunks :: "nat list \<Rightarrow> 'a list \<Rightarrow> 'a list list" where
  "chunks [] xs = []"
| "chunks (n # ns) xs = take n xs # chunks ns (drop n xs)"

definition argsort_stable :: "int list list \<Rightarrow> nat list list" where
  "argsort_stable kss =
     chunks (map length kss) (sort_key (\<lambda>i. concat kss ! i) [0 ..< length (concat kss)])"

text \<open>
  \<^verbatim>\<open>comm.Reduce(local_count, global_count, op=MPI.SUM, root=0)\<close> followed by
  \<^verbatim>\<open>self.cell_count.full[:] = global_count\<close>: the element-wise sum of the ranks' arrays,
  stored into an array of \<open>nr_cells\<close> entries; a shape that does not fit raises.
\<close>

definition reduce_sum :: "int \<Rightarrow> nat list \<Rightarrow> nat list list \<Rightarrow> py_error + nat list" where
  "reduce_sum nr_cells count0 counts =
     (if list_all (\<lambda>lc. int (length lc) = nr_cells) (count0 # counts)
      then Inr (fold (\<lambda>lc acc. map2 (+) acc lc) counts count0)
      else Inl ValueError)"

text \<open>
  Line 34: \<^verbatim>\<open>self.cell_size = (self.pos_max-self.pos_min)/self.resolution\<close>. The difference and
  the quotient are the exact ones: in float64 the quotient is rounded, and for an extent
  near the smallest positive float64 it underflows, down to a cell size of 0.0 on an axis of
  positive extent. On an axis without extent the cell size is 0.0 in the code as here.
\<close>

fun box_cell_size :: "int \<Rightarrow> vec3 \<Rightarrow> vec3 \<Rightarrow> np_float \<times> np_float \<times> np_float" where
  "box_cell_size res (x0, y0, z0) (x1, y1, z1) =
     (np_divide (x1 - x0) (Num (of_int res)),
      np_divide (y1 - y0) (Num (of_int res)),
      np_divide (z1 - z0) (Num (of_int res)))"

text \<open>
  \<^verbatim>\<open>SharedMesh.__init__(comm, pos, resolution)\<close>, run by every rank of \<open>comm\<close>. The
  argument \<open>local0\<close> is \<^verbatim>\<open>pos.local.value\<close> on rank 0 and \<open>locals\<close> lists it for the other
  ranks in rank order, so that \<open>shared_full (local0 # locals)\<close> is \<^verbatim>\<open>pos.full\<close> and a place in
  it is a global particle index. A collective operation is the function of all ranks'
  contributions that MPI computes. A rank that raises (\<^verbatim>\<open>np.amin\<close> and \<^verbatim>\<open>np.amax\<close> on an
  empty local array, \<^verbatim>\<open>np.bincount\<close> on a negative index) does not reach the next
  collective call (\<^verbatim>\<open>Allreduce\<close> at line 27, \<^verbatim>\<open>Reduce\<close> at line 51): see \<open>collective\<close>.
  Barriers and \<^verbatim>\<open>sync()\<close> order the writes and have no value of their own; the counts are
  int64 and are not bounded here, and neither is memory.
\<close>

definition init ::
  "(int list list \<Rightarrow> nat list list) \<Rightarrow> vec3 list \<Rightarrow> vec3 list list \<Rightarrow> int
     \<Rightarrow> py_error + shared_mesh" where
  "init parallel_sort local0 locals res =
     collective (map amin (local0 # locals)) (
     bind_err (amin local0) (\<lambda>min0.
     bind_err (amax local0) (\<lambda>max0.
     bind_err (collect (map amin locals)) (\<lambda>mins.
     bind_err (collect (map amax locals)) (\<lambda>maxs.
       let pmin = fold vmin mins min0;
           pmax = fold vmax maxs max0;
           nr_cells = res ^ 3;
           csz = box_cell_size res pmin pmax;
           cell_idx = (\<lambda>ps. map (\<lambda>p. linear_idx32 res (cell_coords res pmin csz p)) ps)
       in
     collective (map (\<lambda>ps. bincount (cell_idx ps) nr_cells) (local0 # locals)) (
     bind_err (bincount (cell_idx local0) nr_cells) (\<lambda>count0.
     bind_err (collect (map (\<lambda>ps. bincount (cell_idx ps) nr_cells) locals)) (\<lambda>counts.
     bind_err (reduce_sum nr_cells count0 counts) (\<lambda>global_count.
       if global_count = [] then Inl IndexError
       else Inr \<lparr> pos_min = pmin, pos_max = pmax, resolution = res, cell_size = csz,
                 cell_count = global_count,
                 cell_offset = 0 # cumsum (butlast global_count),
                 sort_idx = shared_full (parallel_sort (map cell_idx (local0 # locals))) \<rparr>)))))))))"

text \<open>
  Reading \<^verbatim>\<open>a[i]\<close> from a numpy array with a Python integer: a negative index counts from
  the end, an index out of range raises.
\<close>

definition np_getitem :: "nat list \<Rightarrow> int \<Rightarrow> py_error + nat" where
  "np_getitem xs i =
     (let n = int (length xs)
      in if 0 \<le> i \<and> i < n then Inr (xs ! nat i)
         else if - n \<le> i \<and> i < 0 then Inr (xs ! nat (n + i))
         else Inl IndexError)"

text \<open>
  The three nested loops of \<^verbatim>\<open>query\<close> and \<^verbatim>\<open>query_radius\<close>: the cell numbers
  \<^verbatim>\<open>i + resolution*j + (resolution**2)*k\<close> (Python integers) in the order visited, \<open>k\<close>
  outermost.
\<close>

fun cell_numbers :: "int \<Rightarrow> int \<times> int \<times> int \<Rightarrow> int \<times> int \<times> int \<Rightarrow> int list" where
  "cell_numbers res (i0, j0, k0) (i1, j1, k1) =
     concat (map (\<lambda>k. concat (map (\<lambda>j. map (\<lambda>i. i + res * j + res ^ 2 * k) [i0 .. i1])
                                   [j0 .. j1]))
                 [k0 .. k1])"

text \<open>
  The list \<^verbatim>\<open>idx\<close> of \<^verbatim>\<open>query\<close> after the cells \<open>cs\<close> have been visited. The arguments of
  \<^verbatim>\<open>query\<close> and \<^verbatim>\<open>query_radius\<close> are plain coordinates (the \<^verbatim>\<open>.value\<close> of a quantity with
  units).
\<close>

fun gather :: "shared_mesh \<Rightarrow> int list \<Rightarrow> py_error + nat list list" where
  "gather m [] = Inr []"
| "gather m (cell_nr # cs) =
     bind_err (np_getitem (cell_offset m) cell_nr) (\<lambda>start.
     bind_err (np_getitem (cell_count m) cell_nr) (\<lambda>count.
     bind_err (gather m cs) (\<lambda>rest.
       Inr (if count > 0 then take count (drop start (sort_idx m)) # rest else rest))))"

definition query :: "shared_mesh \<Rightarrow> vec3 \<Rightarrow> vec3 \<Rightarrow> py_error + nat list" where
  "query m qmin qmax =
     (let cell_min_idx = cell_coords (resolution m) (pos_min m) (cell_size m) qmin;
          cell_max_idx = cell_coords (resolution m) (pos_min m) (cell_size m) qmax
      in bind_err (gather m (cell_numbers (resolution m) cell_min_idx cell_max_idx))
           (\<lambda>idx. Inr (concat idx)))"

text \<open>
  \<^verbatim>\<open>np.sum((pos.full[i, :] - centre)**2)\<close> for one row, as the exact sum of the exact squares;
  float64 rounds each difference, each square and the sum.
\<close>

fun r2 :: "vec3 \<Rightarrow> vec3 \<Rightarrow> real" where
  "r2 (cx, cy, cz) (x, y, z) = (x - cx) ^ 2 + (y - cy) ^ 2 + (z - cz) ^ 2"

text \<open>
  The list \<^verbatim>\<open>idx\<close> of \<^verbatim>\<open>query_radius\<close> after the cells \<open>cs\<close> have been visited.
  \<^verbatim>\<open>pos.full[idx_in_cell, :]\<close> raises when an index is not a row of \<^verbatim>\<open>pos.full\<close>.
\<close>

fun gather_radius ::
  "shared_mesh \<Rightarrow> vec3 \<Rightarrow> real \<Rightarrow> vec3 list \<Rightarrow> int list \<Rightarrow> py_error + nat list list" where
  "gather_radius m centre radius pos_full [] = Inr []"
| "gather_radius m centre radius pos_full (cell_nr # cs) =
     bind_err (np_getitem (cell_offset m) cell_nr) (\<lambda>start.
     bind_err (np_getitem (cell_count m) cell_nr) (\<lambda>count.
     bind_err (if count > 0
               then (let idx_in_cell = take count (drop start (sort_idx m))
                     in if list_ex (\<lambda>x. length pos_full \<le> x) idx_in_cell then Inl IndexError
                        else (let keep = filter (\<lambda>x. r2 centre (pos_full ! x) \<le> radius * radius)
                                            idx_in_cell
                              in Inr (if length keep > 0 then [keep] else [])))
               else Inr []) (\<lambda>found.
     bind_err (gather_radius m centre radius pos_full cs) (\<lambda>rest.
       Inr (found @ rest)))))"

fun query_radius :: "shared_mesh \<Rightarrow> vec3 \<Rightarrow> real \<Rightarrow> vec3 list \<Rightarrow> py_error + nat list" where
  "query_radius m (cx, cy, cz) radius pos_full =
     (let qmin = (cx - radius, cy - radius, cz - radius);
          qmax = (cx + radius, cy + radius, cz + radius);
          cell_min_idx = cell_coords (resolution m) (pos_min m) (cell_size m) qmin;
          cell_max_idx = cell_coords (resolution m) (pos_min m) (cell_size m) qmax
      in bind_err (gather_radius m (cx, cy, cz) radius pos_full
                     (cell_numbers (resolution m) cell_min_idx cell_max_idx))
           (\<lambda>idx. Inr (concat idx)))"


text \<open>
  The cell index that \<^verbatim>\<open>__init__\<close> computes for a particle (lines 37 to 39), written with
  the fields the mesh keeps.
\<close>

definition cell_index_of :: "shared_mesh \<Rightarrow> vec3 \<Rightarrow> int" where
  "cell_index_of m p =
     linear_idx32 (resolution m) (cell_coords (resolution m) (pos_min m) (cell_size m) p)"

text \<open>The slice \<^verbatim>\<open>sort_idx.full[cell_offset.full[c] : cell_offset.full[c] + cell_count.full[c]]\<close>.\<close>

definition cell_members :: "shared_mesh \<Rightarrow> nat \<Rightarrow> nat list" where
  "cell_members m c = take (cell_count m ! c) (drop (cell_offset m ! c) (sort_idx m))"

text \<open>
  A query corner \<open>q\<close> is within the int32 range of the mesh when, on every axis with a
  positive cell size, \<^verbatim>\<open>np.floor((q - self.pos_min) / self.cell_size)\<close> is below \<open>2\<^sup>3\<^sup>1\<close>, so
  that the cast to int32 does not overflow upwards.
\<close>

definition axis_in_int32 :: "shared_mesh \<Rightarrow> axis \<Rightarrow> vec3 \<Rightarrow> bool" where
  "axis_in_int32 m d q =
     (case coord d (cell_size m) of
        Num c \<Rightarrow> c \<le> 0 \<or> \<lfloor>(coord d q - coord d (pos_min m)) / c\<rfloor> < 2 ^ 31
      | _ \<Rightarrow> True)"

definition corner_in_int32 :: "shared_mesh \<Rightarrow> vec3 \<Rightarrow> bool" where
  "corner_in_int32 m q \<longleftrightarrow> axis_in_int32 m X q \<and> axis_in_int32 m Y q \<and> axis_in_int32 m Z q"

section \<open>SnapshotDatasets\<close>

text \<open>
  A Python \<^verbatim>\<open>dict\<close> keeps its keys in insertion order, and \<^verbatim>\<open>get_dataset\<close> prints them in
  that order, so a dict is an association list: \<^verbatim>\<open>d[k] = v\<close> is \<open>AList.update k v d\<close>
  (a key already present keeps its place), \<^verbatim>\<open>d[k]\<close> is \<open>map_of d k\<close>, and the keys in
  order are \<open>map fst d\<close>. The attribute \<^verbatim>\<open>dataset_map\<close> does not exist before
  \<^verbatim>\<open>setup_aliases\<close> has run: it is \<open>None\<close> until then. The fields \<open>datasets_in_file\<close> and
  \<open>named_columns\<close> are what \<^verbatim>\<open>__init__\<close> read from the file.
\<close>

record snapshot_datasets =
  datasets_in_file :: "(string \<times> string list) list"
  named_columns :: "(string \<times> (string \<times> nat) list) list"
  dataset_map :: "(string \<times> (string \<times> string)) list option"

text \<open>\<^verbatim>\<open>s.split(c)\<close> for a one-character separator.\<close>

fun split_on :: "char \<Rightarrow> string \<Rightarrow> string list" where
  "split_on c [] = [[]]"
| "split_on c (x # xs) =
     (if x = c then [] # split_on c xs
      else (case split_on c xs of w # ws \<Rightarrow> (x # w) # ws | [] \<Rightarrow> [[x]]))"

text \<open>The f-string \<^verbatim>\<open>f"{ptype}/{dset}"\<close>.\<close>

definition snap_name :: "string \<Rightarrow> string \<Rightarrow> string" where
  "snap_name ptype dset = ptype @ ''/'' @ dset"

text \<open>Lines 22 to 25 of \<^verbatim>\<open>setup_aliases\<close>: the entries for the datasets of the file.\<close>

definition add_ptype ::
  "(string \<times> string list) list \<Rightarrow> string \<Rightarrow> (string \<times> (string \<times> string)) list
     \<Rightarrow> (string \<times> (string \<times> string)) list" where
  "add_ptype in_file ptype dm =
     fold (\<lambda>dset dm. AList.update (snap_name ptype dset) (ptype, dset) dm)
       ((case map_of in_file ptype of Some dsets \<Rightarrow> dsets | None \<Rightarrow> [])
          @ [''GroupNr_all'', ''GroupNr_bound''])
       dm"

definition file_entries :: "(string \<times> string list) list \<Rightarrow> (string \<times> (string \<times> string)) list" where
  "file_entries in_file = fold (add_ptype in_file) (map fst in_file) []"

text \<open>
  Lines 26 to 31: the loop over the aliases. Unpacking \<^verbatim>\<open>a, b = s.split("/")\<close> raises
  \<^verbatim>\<open>ValueError\<close> unless the split has two parts; the entries written before that stay.
\<close>

fun alias_loop ::
  "(string \<times> string) list \<Rightarrow> (string \<times> (string \<times> string)) list
     \<Rightarrow> (string \<times> (string \<times> nat) list) list
     \<Rightarrow> (py_error + unit) \<times> (string \<times> (string \<times> string)) list \<times> (string \<times> (string \<times> nat) list) list" where
  "alias_loop [] dm nc = (Inr (), dm, nc)"
| "alias_loop ((alias, target) # rest) dm nc =
     (case split_on CHR ''/'' alias of
        [SOAP_ptype, SOAP_dset] \<Rightarrow>
          (case split_on CHR ''/'' target of
             [snap_ptype, snap_dset] \<Rightarrow>
               alias_loop rest
                 (AList.update alias (snap_ptype, snap_dset) dm)
                 (case map_of nc snap_dset of
                    Some cols \<Rightarrow>
                      (if map_of nc SOAP_dset = None then AList.update SOAP_dset cols nc else nc)
                  | None \<Rightarrow> nc)
           | _ \<Rightarrow> (Inl ValueError, dm, nc))
      | _ \<Rightarrow> (Inl ValueError, dm, nc))"

definition setup_aliases ::
  "snapshot_datasets \<Rightarrow> (string \<times> string) list \<Rightarrow> (py_error + unit) \<times> snapshot_datasets" where
  "setup_aliases s aliases =
     (case alias_loop aliases (file_entries (datasets_in_file s)) (named_columns s) of
        (r, dm, nc) \<Rightarrow> (r, s\<lparr> dataset_map := Some dm, named_columns := nc \<rparr>))"

text \<open>The expression \<^verbatim>\<open>data_dict[ptype][dset]\<close>: each subscript raises on a missing key.\<close>

definition subscript2 :: "(string \<rightharpoonup> (string \<rightharpoonup> 'v)) \<Rightarrow> string \<Rightarrow> string \<Rightarrow> py_error + 'v" where
  "subscript2 data_dict ptype dset =
     (case data_dict ptype of
        None \<Rightarrow> Inl (KeyError ptype)
      | Some d \<Rightarrow> (case d dset of None \<Rightarrow> Inl (KeyError dset) | Some v \<Rightarrow> Inr v))"

text \<open>
  Standard output is the list of the lines written so far; \<^verbatim>\<open>print(line)\<close> appends one.
\<close>

definition print_line :: "string \<Rightarrow> string list \<Rightarrow> string list" where
  "print_line line out = out @ [line]"

text \<open>
  The \<^verbatim>\<open>except\<close> branch of \<^verbatim>\<open>get_dataset\<close> before it raises again: two \<^verbatim>\<open>print\<close> calls, then the
  loop \<^verbatim>\<open>for key in self.dataset_map: print(f"  {key}")\<close> over the keys in the order of the
  dictionary.
\<close>

definition report_missing :: "string \<Rightarrow> string list \<Rightarrow> string list \<Rightarrow> string list" where
  "report_missing name keys out =
     fold (\<lambda>key. print_line (''  '' @ key)) keys
       (print_line ''Available datasets:''
         (print_line (''Dataset '' @ [CHR 0x22] @ name @ [CHR 0x22] @ '' not found!'') out))"

text \<open>
  \<^verbatim>\<open>get_dataset(name, data_dict)\<close>: the lines printed, the value returned or the exception
  raised, and the object afterwards.
\<close>

definition get_dataset ::
  "snapshot_datasets \<Rightarrow> string \<Rightarrow> (string \<rightharpoonup> (string \<rightharpoonup> 'v))
     \<Rightarrow> string list \<times> (py_error + 'v) \<times> snapshot_datasets" where
  "get_dataset s name data_dict =
     (case dataset_map s of
        None \<Rightarrow> ([], Inl AttributeError, s)
      | Some dm \<Rightarrow>
          (case map_of dm name of
             None \<Rightarrow> (report_missing name (map fst dm) [], Inl (KeyError name), s)
           | Some (ptype, dset) \<Rightarrow> ([], subscript2 data_dict ptype dset, s)))"

section \<open>Test data\<close>

text \<open>The three particles of the specification's scenario A, all on one rank.\<close>

definition scenario_A :: "vec3 list" where
  "scenario_A = [(1 / 10, 1 / 10, 1 / 10), (19 / 10, 19 / 10, 19 / 10), (11 / 10, 1 / 10, 1 / 10)]"

text \<open>
  A mesh with the bounding box (0,0,0)-(2,2,2) that scenario A names, and the three
  particles in cells 0, 7 and 1.
\<close>

definition scenario_A_mesh :: shared_mesh where
  "scenario_A_mesh =
     \<lparr> pos_min = (0, 0, 0), pos_max = (2, 2, 2), resolution = 2,
       cell_size = (Num 1, Num 1, Num 1),
       cell_count = [1, 1, 0, 0, 0, 0, 0, 1],
       cell_offset = [0, 1, 2, 2, 2, 2, 2, 2],
       sort_idx = [0, 2, 1] \<rparr>"

text \<open>The mesh that \<^verbatim>\<open>__init__\<close> builds from the three particles with resolution 2.\<close>

definition scenario_A_built :: shared_mesh where
  "scenario_A_built =
     \<lparr> pos_min = (1 / 10, 1 / 10, 1 / 10), pos_max = (19 / 10, 19 / 10, 19 / 10), resolution = 2,
       cell_size = (Num (9 / 10), Num (9 / 10), Num (9 / 10)),
       cell_count = [1, 1, 0, 0, 0, 0, 0, 1],
       cell_offset = [0, 1, 2, 2, 2, 2, 2, 2],
       sort_idx = [0, 2, 1] \<rparr>"

text \<open>Two particles in a thin slab: the extent along z is \<open>10\<^sup>-\<^sup>9\<close>.\<close>

definition thin_slab :: "vec3 list" where
  "thin_slab = [(0, 0, 0), (1, 1, 1 / 10 ^ 9)]"

definition thin_slab_mesh :: shared_mesh where
  "thin_slab_mesh =
     \<lparr> pos_min = (0, 0, 0), pos_max = (1, 1, 1 / 10 ^ 9), resolution = 2,
       cell_size = (Num (1 / 2), Num (1 / 2), Num (1 / (2 * 10 ^ 9))),
       cell_count = [1, 0, 0, 0, 0, 0, 0, 1],
       cell_offset = [0, 1, 1, 1, 1, 1, 1, 1],
       sort_idx = [0, 1] \<rparr>"



text \<open>A snapshot with one particle type and one dataset, before \<^verbatim>\<open>setup_aliases\<close>.\<close>

definition snap_one :: snapshot_datasets where
  "snap_one =
     \<lparr> datasets_in_file = [(''PartType0'', [''Masses''])],
       named_columns = [],
       dataset_map = None \<rparr>"

text \<open>An alias table whose key is the name of an entry of the file.\<close>

definition alias_override :: "(string \<times> string) list" where
  "alias_override = [(''PartType0/GroupNr_all'', ''PartType1/Masses'')]"

definition alias_plain :: "(string \<times> string) list" where
  "alias_plain = [(''PartType0/Mass'', ''PartType0/Masses'')]"

text \<open>The data read for \<^verbatim>\<open>snap_one\<close>: one array, here a number.\<close>

definition data_one :: "string \<rightharpoonup> (string \<rightharpoonup> nat)" where
  "data_one = [''PartType0'' \<mapsto> [''Masses'' \<mapsto> 42]]"

text \<open>\<^verbatim>\<open>snap_one\<close> after \<^verbatim>\<open>setup_aliases(alias_plain)\<close>.\<close>

definition snap_one_ready :: snapshot_datasets where
  "snap_one_ready =
     \<lparr> datasets_in_file = [(''PartType0'', [''Masses''])],
       named_columns = [],
       dataset_map = Some
         [(''PartType0/Masses'', (''PartType0'', ''Masses'')),
          (''PartType0/GroupNr_all'', (''PartType0'', ''GroupNr_all'')),
          (''PartType0/GroupNr_bound'', (''PartType0'', ''GroupNr_bound'')),
          (''PartType0/Mass'', (''PartType0'', ''Masses''))] \<rparr>"

text \<open>Particles in the plane \<open>z = 0\<close>, two on rank 0 and one on rank 1.\<close>

definition flat_rank0 :: "vec3 list" where
  "flat_rank0 = [(0, 0, 0), (1, 1, 0)]"

definition flat_rank1 :: "vec3 list" where
  "flat_rank1 = [(3, 4, 0)]"

section \<open>Properties\<close>

subsection \<open>Exceptions\<close>

lemma bind_err_Inr_iff: "bind_err r f = Inr y \<longleftrightarrow> (\<exists>x. r = Inr x \<and> f x = Inr y)"
  by (cases r) auto

lemma collective_Inr: "collective rs k = Inr y \<Longrightarrow> k = Inr y"
  by (auto simp: collective_def split: if_splits list.splits sum.splits)

lemma collective_raised:
  "list_ex isl rs \<Longrightarrow>
   collective rs k =
     (case rs of
        Inl e # _ \<Rightarrow> if list_all isl rs then Inl e else Inl Stalled
      | _ \<Rightarrow> Inl Stalled)"
  by (simp add: collective_def)

lemma collective_pass: "\<not> list_ex isl rs \<Longrightarrow> collective rs k = k"
  by (simp add: collective_def)

lemma collect_Inr:
  "collect rs = Inr ys \<Longrightarrow> rs = map Inr ys"
proof (induction rs arbitrary: ys rule: collect.induct)
  case 1
  then show ?case by simp
next
  case (2 e rs)
  then show ?case by simp
next
  case (3 x rs)
  then show ?case by (auto split: sum.splits)
qed

subsection \<open>Prefix sums\<close>

lemma length_cumsum_from: "length (cumsum_from a xs) = length xs"
  by (induction xs arbitrary: a) auto

lemma cumsum_from_nth:
  "i < length xs \<Longrightarrow> cumsum_from a xs ! i = a + sum_list (take (Suc i) xs)"
proof (induction xs arbitrary: a i)
  case Nil
  then show ?case by simp
next
  case (Cons x xs)
  show ?case
  proof (cases i)
    case 0
    then show ?thesis by simp
  next
    case (Suc j)
    with Cons.prems have "j < length xs" by simp
    from Cons.IH [OF this, of "a + x"] Suc show ?thesis by simp
  qed
qed

lemma offsets_nth:
  assumes "c < length cnt"
  shows "(0 # cumsum (butlast cnt)) ! c = sum_list (take c cnt)"
proof (cases c)
  case 0
  then show ?thesis by simp
next
  case (Suc j)
  with assms have j: "j < length (butlast cnt)" by simp
  have "take (Suc j) (butlast cnt) = take (Suc j) cnt"
    using assms Suc by (simp add: take_butlast)
  with cumsum_from_nth [OF j, of 0] Suc show ?thesis
    by (simp add: cumsum_def)
qed

lemma length_offsets: "cnt \<noteq> [] \<Longrightarrow> length (0 # cumsum (butlast cnt)) = length cnt"
  by (simp add: cumsum_def length_cumsum_from)

lemma offsets_step:
  assumes "0 < c" "c < length cnt"
  shows "(0 # cumsum (butlast cnt)) ! c = (0 # cumsum (butlast cnt)) ! (c - 1) + cnt ! (c - 1)"
proof -
  from assms obtain j where c: "c = Suc j" by (cases c) auto
  with assms have j: "j < length cnt" by simp
  have 1: "(0 # cumsum (butlast cnt)) ! c = sum_list (take (Suc j) cnt)"
    using offsets_nth [OF assms(2)] c by simp
  have 2: "(0 # cumsum (butlast cnt)) ! (c - 1) = sum_list (take j cnt)"
    using offsets_nth [OF j] c by simp
  have "sum_list (take (Suc j) cnt) = sum_list (take j cnt) + cnt ! j"
    using j by (simp add: take_Suc_conv_app_nth)
  with 1 2 c show ?thesis by simp
qed

lemma sorted_offsets: "sorted (0 # cumsum (butlast cnt))"
proof (cases "cnt = []")
  case True
  then show ?thesis by (simp add: cumsum_def)
next
  case False
  let ?off = "0 # cumsum (butlast cnt)"
  have len: "length ?off = length cnt" using False by (rule length_offsets)
  have "?off ! i \<le> ?off ! Suc i" if "Suc i < length ?off" for i
  proof -
    from that len have "Suc i < length cnt" by simp
    from offsets_step [OF _ this] show ?thesis by simp
  qed
  then show ?thesis by (simp only: sorted_iff_nth_Suc) blast
qed

subsection \<open>What a successful construction leaves\<close>

lemma build_InrE:
  assumes "init ps l0 ls res = Inr m"
  obtains min0 max0 mins maxs count0 counts where
    "amin l0 = Inr min0" "amax l0 = Inr max0"
    "collect (map amin ls) = Inr mins" "collect (map amax ls) = Inr maxs"
    "pos_min m = fold vmin mins min0" "pos_max m = fold vmax maxs max0"
    "resolution m = res"
    "cell_size m = box_cell_size res (pos_min m) (pos_max m)"
    "bincount (map (cell_index_of m) l0) (res ^ 3) = Inr count0"
    "collect (map (\<lambda>ps. bincount (map (cell_index_of m) ps) (res ^ 3)) ls) = Inr counts"
    "reduce_sum (res ^ 3) count0 counts = Inr (cell_count m)"
    "cell_count m \<noteq> []"
    "cell_offset m = 0 # cumsum (butlast (cell_count m))"
    "sort_idx m = shared_full (ps (map (map (cell_index_of m)) (l0 # ls)))"
proof -
  obtain min0 max0 mins maxs where
    a: "amin l0 = Inr min0" "amax l0 = Inr max0"
    "collect (map amin ls) = Inr mins" "collect (map amax ls) = Inr maxs"
    and rest: "(let pmin = fold vmin mins min0;
           pmax = fold vmax maxs max0;
           nr_cells = res ^ 3;
           csz = box_cell_size res pmin pmax;
           cell_idx = (\<lambda>ps. map (\<lambda>p. linear_idx32 res (cell_coords res pmin csz p)) ps)
       in
     collective (map (\<lambda>ps. bincount (cell_idx ps) nr_cells) (l0 # ls)) (
     bind_err (bincount (cell_idx l0) nr_cells) (\<lambda>count0.
     bind_err (collect (map (\<lambda>ps. bincount (cell_idx ps) nr_cells) ls)) (\<lambda>counts.
     bind_err (reduce_sum nr_cells count0 counts) (\<lambda>global_count.
       if global_count = [] then Inl IndexError
       else Inr \<lparr> pos_min = pmin, pos_max = pmax, resolution = res, cell_size = csz,
                 cell_count = global_count,
                 cell_offset = 0 # cumsum (butlast global_count),
                 sort_idx = shared_full (ps (map cell_idx (l0 # ls))) \<rparr>))))) = Inr m"
    using assms [unfolded init_def, THEN collective_Inr]
    unfolding bind_err_Inr_iff by blast
  define pmin where "pmin = fold vmin mins min0"
  define pmax where "pmax = fold vmax maxs max0"
  define csz where "csz = box_cell_size res pmin pmax"
  define cell_idx where
    "cell_idx = (\<lambda>ps. map (\<lambda>p. linear_idx32 res (cell_coords res pmin csz p)) ps)"
  from rest [unfolded Let_def, THEN collective_Inr] obtain count0 counts gc where
    b: "bincount (cell_idx l0) (res ^ 3) = Inr count0"
       "collect (map (\<lambda>ps. bincount (cell_idx ps) (res ^ 3)) ls) = Inr counts"
       "reduce_sum (res ^ 3) count0 counts = Inr gc"
       "gc \<noteq> []"
    and m: "m = \<lparr> pos_min = pmin, pos_max = pmax, resolution = res, cell_size = csz,
                 cell_count = gc,
                 cell_offset = 0 # cumsum (butlast gc),
                 sort_idx = shared_full (ps (map cell_idx (l0 # ls))) \<rparr>"
    unfolding Let_def bind_err_Inr_iff pmin_def pmax_def csz_def cell_idx_def
    by (auto split: if_splits)
  have f: "pos_min m = pmin" "pos_max m = pmax" "resolution m = res" "cell_size m = csz"
    "cell_count m = gc" "cell_offset m = 0 # cumsum (butlast gc)"
    "sort_idx m = shared_full (ps (map cell_idx (l0 # ls)))"
    by (simp_all add: m)
  have ci: "cell_idx = map (cell_index_of m)"
    by (rule ext) (simp add: cell_idx_def cell_index_of_def f)
  show ?thesis
  proof (rule that [OF a(1) a(2) a(3) a(4), of count0 counts])
    show "pos_min m = fold vmin mins min0" by (simp add: f pmin_def)
    show "pos_max m = fold vmax maxs max0" by (simp add: f pmax_def)
    show "resolution m = res" by (simp add: f)
    show "cell_size m = box_cell_size res (pos_min m) (pos_max m)" by (simp add: f csz_def)
    show "bincount (map (cell_index_of m) l0) (res ^ 3) = Inr count0"
      using b(1) by (simp add: ci)
    show "collect (map (\<lambda>ps. bincount (map (cell_index_of m) ps) (res ^ 3)) ls) = Inr counts"
      using b(2) by (simp add: ci)
    show "reduce_sum (res ^ 3) count0 counts = Inr (cell_count m)" using b(3) by (simp add: f)
    show "cell_count m \<noteq> []" using b(4) by (simp add: f)
    show "cell_offset m = 0 # cumsum (butlast (cell_count m))" by (simp add: f)
    show "sort_idx m = shared_full (ps (map (map (cell_index_of m)) (l0 # ls)))"
      unfolding f(7) ci ..
  qed
qed

lemma build_scenario_A: "init argsort_stable scenario_A [] 2 = Inr scenario_A_built"
  unfolding scenario_A_def scenario_A_built_def by code_simp

lemma build_thin_slab: "init argsort_stable thin_slab [] 2 = Inr thin_slab_mesh"
  unfolding thin_slab_def thin_slab_mesh_def by code_simp

text \<open>
  C5. After a construction that succeeds, \<open>cell_offset\<close> is the exclusive prefix sum of
  \<open>cell_count\<close>: it has as many entries, the first is 0, every later entry is the one
  before it plus the count of the cell before it, and so the entries never decrease.
\<close>

theorem cell_offset_prefix_sum:
  assumes "init ps l0 ls res = Inr m"
  shows "length (cell_offset m) = length (cell_count m) \<and>
         cell_offset m ! 0 = 0 \<and>
         (\<forall>c. 0 < c \<and> c < length (cell_count m) \<longrightarrow>
              cell_offset m ! c = cell_offset m ! (c - 1) + cell_count m ! (c - 1)) \<and>
         sorted (cell_offset m)"
proof -
  from assms have ne: "cell_count m \<noteq> []"
    and off: "cell_offset m = 0 # cumsum (butlast (cell_count m))"
    by (auto elim: build_InrE)
  have 1: "length (cell_offset m) = length (cell_count m)"
    unfolding off using ne by (rule length_offsets)
  have 2: "cell_offset m ! 0 = 0"
    unfolding off by simp
  have 3: "cell_offset m ! c = cell_offset m ! (c - 1) + cell_count m ! (c - 1)"
    if "0 < c" "c < length (cell_count m)" for c
    unfolding off using that by (rule offsets_step)
  have 4: "sorted (cell_offset m)"
    unfolding off by (rule sorted_offsets)
  from 1 2 3 4 show ?thesis by blast
qed

theorem cell_offset_prefix_sum_witness:
  "init argsort_stable scenario_A [] 2 = Inr scenario_A_built \<and>
   cell_count scenario_A_built = [1, 1, 0, 0, 0, 0, 0, 1] \<and>
   cell_offset scenario_A_built = [0, 1, 2, 2, 2, 2, 2, 2] \<and>
   cell_offset scenario_A_built ! 2 =
     cell_offset scenario_A_built ! (2 - 1) + cell_count scenario_A_built ! (2 - 1) \<and>
   sorted (cell_offset scenario_A_built)"
proof -
  note t = cell_offset_prefix_sum [OF build_scenario_A]
  have len: "(2::nat) < length (cell_count scenario_A_built)"
    by (simp add: scenario_A_built_def)
  from t len have "cell_offset scenario_A_built ! 2 =
      cell_offset scenario_A_built ! (2 - 1) + cell_count scenario_A_built ! (2 - 1)"
    by simp
  moreover from t have "sorted (cell_offset scenario_A_built)" by blast
  moreover have "cell_count scenario_A_built = [1, 1, 0, 0, 0, 0, 0, 1]"
    "cell_offset scenario_A_built = [0, 1, 2, 2, 2, 2, 2, 2]"
    by (simp_all add: scenario_A_built_def)
  ultimately show ?thesis using build_scenario_A by blast
qed

subsection \<open>Buckets of a sorted index array\<close>

lemma sorted_split3:
  fixes f :: "'a \<Rightarrow> int"
  assumes "sorted (map f s)"
  shows "s = filter (\<lambda>i. f i < c) s @ filter (\<lambda>i. f i = c) s @ filter (\<lambda>i. c < f i) s"
  using assms
proof (induction s)
  case Nil
  then show ?case by simp
next
  case (Cons x xs)
  then have ge: "\<forall>y\<in>set xs. f x \<le> f y" and srt: "sorted (map f xs)"
    by auto
  note IH = Cons.IH [OF srt]
  consider "f x < c" | "f x = c" | "c < f x" by linarith
  then show ?case
  proof cases
    case 1
    with IH show ?thesis by simp
  next
    case 2
    with ge have "filter (\<lambda>i. f i < c) xs = []"
      by (auto simp: filter_empty_conv)
    with 2 IH show ?thesis by simp
  next
    case 3
    with ge have "filter (\<lambda>i. f i < c) xs = []" "filter (\<lambda>i. f i = c) xs = []"
      by (auto simp: filter_empty_conv)
    with 3 IH show ?thesis by simp
  qed
qed

lemma length_filter_perm:
  assumes "mset s = mset [0 ..< length ks]"
  shows "length (filter (\<lambda>i. P (ks ! i)) s) = length (filter P ks)"
proof -
  have "image_mset (\<lambda>i. ks ! i) (mset s) = image_mset (\<lambda>i. ks ! i) (mset [0 ..< length ks])"
    using assms by (rule arg_cong)
  then have "mset (map (\<lambda>i. ks ! i) s) = mset (map (\<lambda>i. ks ! i) [0 ..< length ks])"
    by (simp only: mset_map)
  also have "map (\<lambda>i. ks ! i) [0 ..< length ks] = ks"
    by (rule map_nth)
  finally have "mset (map (\<lambda>i. ks ! i) s) = mset ks" .
  then have "mset (filter P (map (\<lambda>i. ks ! i) s)) = mset (filter P ks)"
    by (simp only: mset_filter)
  then have "length (filter P (map (\<lambda>i. ks ! i) s)) = length (filter P ks)"
    by (rule mset_eq_length)
  then show ?thesis by (simp add: filter_map comp_def)
qed

lemma length_filter_less_Suc:
  fixes ks :: "int list"
  shows "length (filter (\<lambda>k. k < int (Suc c)) ks) =
         length (filter (\<lambda>k. k < int c) ks) + count_list ks (int c)"
  by (induction ks) auto

lemma sum_counts_below:
  fixes ks :: "int list"
  assumes "\<forall>k\<in>set ks. 0 \<le> k"
  shows "sum_list (map (\<lambda>c. count_list ks (int c)) [0 ..< c]) = length (filter (\<lambda>k. k < int c) ks)"
proof (induction c)
  case 0
  from assms have "filter (\<lambda>k. k < 0) ks = []"
    by (auto simp: filter_empty_conv)
  then show ?case by simp
next
  case (Suc c)
  have "sum_list (map (\<lambda>c. count_list ks (int c)) [0 ..< Suc c]) =
        sum_list (map (\<lambda>c. count_list ks (int c)) [0 ..< c]) + count_list ks (int c)"
    by simp
  with Suc show ?case by (simp only: length_filter_less_Suc)
qed


lemma bucket_slice:
  fixes ks :: "int list"
  assumes perm: "mset s = mset [0 ..< length ks]"
    and srt: "sorted (map (\<lambda>i. ks ! i) s)"
    and nonneg: "\<forall>k\<in>set ks. 0 \<le> k"
    and cnt: "cnt = map (\<lambda>c. count_list ks (int c)) [0 ..< n]"
    and c: "c < n"
  shows "take (cnt ! c) (drop ((0 # cumsum (butlast cnt)) ! c) s) = filter (\<lambda>i. ks ! i = int c) s"
proof -
  let ?A = "filter (\<lambda>i. ks ! i < int c) s"
  let ?B = "filter (\<lambda>i. ks ! i = int c) s"
  let ?C = "filter (\<lambda>i. int c < ks ! i) s"
  have s: "s = ?A @ ?B @ ?C"
    using srt by (rule sorted_split3)
  have len: "c < length cnt" using cnt c by simp
  have "(0 # cumsum (butlast cnt)) ! c = sum_list (take c cnt)"
    using len by (rule offsets_nth)
  also have "take c cnt = map (\<lambda>c. count_list ks (int c)) [0 ..< c]"
    using c by (simp add: cnt take_map)
  also have "sum_list \<dots> = length (filter (\<lambda>k. k < int c) ks)"
    using nonneg by (rule sum_counts_below)
  also have "\<dots> = length ?A"
    using length_filter_perm [OF perm, of "\<lambda>k. k < int c"] by simp
  finally have off: "(0 # cumsum (butlast cnt)) ! c = length ?A" .
  have "cnt ! c = count_list ks (int c)"
    using c by (simp add: cnt)
  also have "\<dots> = length (filter (\<lambda>k. k = int c) ks)"
  proof -
    have "(=) (int c) = (\<lambda>k. k = int c)" by auto
    then show ?thesis by (simp only: count_list_eq_length_filter)
  qed
  also have "\<dots> = length ?B"
    using length_filter_perm [OF perm, of "\<lambda>k. k = int c"] by simp
  finally have count: "cnt ! c = length ?B" .
  have "take (length ?B) (drop (length ?A) (?A @ ?B @ ?C)) = ?B"
    by simp
  with s off count show ?thesis by simp
qed

subsection \<open>The histogram of a successful construction\<close>

lemma fold_max_ge:
  fixes a :: int
  shows "a \<le> fold max ks a \<and> (\<forall>k\<in>set ks. k \<le> fold max ks a)"
proof (induction ks arbitrary: a)
  case Nil
  then show ?case by simp
next
  case (Cons k ks)
  from Cons.IH [of "max k a"] show ?case by auto
qed

lemma bincount_Inr:
  assumes "bincount ks n = Inr cnt"
  shows "0 \<le> n" "nat n \<le> length cnt" "\<forall>k\<in>set ks. 0 \<le> k \<and> k < int (length cnt)"
    "cnt = map (\<lambda>c. count_list ks (int c)) [0 ..< length cnt]"
proof -
  let ?len = "max (nat n) (nat (fold max ks (- 1) + 1))"
  from assms have n: "0 \<le> n" and nonneg: "\<forall>k\<in>set ks. 0 \<le> k"
    and cnt: "cnt = map (\<lambda>c. count_list ks (int c)) [0 ..< ?len]"
    by (auto simp: bincount_def list_ex_iff split: if_splits)
  from cnt have len: "length cnt = ?len" by simp
  show "0 \<le> n" by (rule n)
  show "nat n \<le> length cnt" by (simp add: len)
  show "\<forall>k\<in>set ks. 0 \<le> k \<and> k < int (length cnt)"
  proof
    fix k assume k: "k \<in> set ks"
    with fold_max_ge [of "- 1" ks] have "k \<le> fold max ks (- 1)" by blast
    with nonneg k show "0 \<le> k \<and> k < int (length cnt)" by (auto simp: len)
  qed
  show "cnt = map (\<lambda>c. count_list ks (int c)) [0 ..< length cnt]"
    using cnt len by simp
qed

lemma fold_add_counts:
  assumes "list_all2 (\<lambda>ks lc. lc = map (\<lambda>c. count_list ks (int c)) [0 ..< n]) kss counts"
    and "count0 = map (\<lambda>c. count_list ks0 (int c)) [0 ..< n]"
  shows "fold (\<lambda>lc acc. map2 (+) acc lc) counts count0 =
         map (\<lambda>c. count_list (ks0 @ concat kss) (int c)) [0 ..< n]"
  using assms
proof (induction kss counts arbitrary: ks0 count0 rule: list_all2_induct)
  case Nil
  then show ?case by simp
next
  case (Cons ks kss lc counts)
  have "map2 (+) count0 lc = map (\<lambda>c. count_list (ks0 @ ks) (int c)) [0 ..< n]"
    unfolding Cons.hyps(1) Cons.prems by (simp add: map2_map_map)
  from Cons.IH [OF this] show ?case by simp
qed

lemma collect_map_Inr:
  "collect (map f xs) = Inr ys \<Longrightarrow> list_all2 (\<lambda>x y. f x = Inr y) xs ys"
proof (induction xs arbitrary: ys)
  case Nil
  then show ?case by simp
next
  case (Cons x xs)
  then show ?case by (cases "f x") (auto split: sum.splits)
qed

lemma build_histogram:
  assumes b: "init ps l0 ls res = Inr m"
  defines "keys \<equiv> map (cell_index_of m) (concat (l0 # ls))"
  shows "0 < res ^ 3"
    and "cell_count m = map (\<lambda>c. count_list keys (int c)) [0 ..< nat (res ^ 3)]"
    and "\<forall>k\<in>set keys. 0 \<le> k \<and> k < res ^ 3"
    and "sort_idx m = shared_full (ps (map (map (cell_index_of m)) (l0 # ls)))"
proof -
  from b obtain count0 counts where
    c0: "bincount (map (cell_index_of m) l0) (res ^ 3) = Inr count0"
    and cs: "collect (map (\<lambda>ps. bincount (map (cell_index_of m) ps) (res ^ 3)) ls) = Inr counts"
    and red: "reduce_sum (res ^ 3) count0 counts = Inr (cell_count m)"
    and ne: "cell_count m \<noteq> []"
    and si: "sort_idx m = shared_full (ps (map (map (cell_index_of m)) (l0 # ls)))"
    by (rule build_InrE)
  let ?n = "nat (res ^ 3)"
  from red have lens: "\<forall>lc\<in>set (count0 # counts). int (length lc) = res ^ 3"
    and gc: "cell_count m = fold (\<lambda>lc acc. map2 (+) acc lc) counts count0"
    by (auto simp: reduce_sum_def list_all_iff split: if_splits)
  from lens have len0: "length count0 = ?n" by auto
  from bincount_Inr [OF c0] len0
  have k0: "\<forall>k\<in>set (map (cell_index_of m) l0). 0 \<le> k \<and> k < res ^ 3"
    and f0: "count0 = map (\<lambda>c. count_list (map (cell_index_of m) l0) (int c)) [0 ..< ?n]"
    by auto
  have all2: "list_all2 (\<lambda>ps lc. bincount (map (cell_index_of m) ps) (res ^ 3) = Inr lc) ls counts"
    using cs by (rule collect_map_Inr)
  have each: "(\<forall>k\<in>set (map (cell_index_of m) ps). 0 \<le> k \<and> k < res ^ 3) \<and>
      lc = map (\<lambda>c. count_list (map (cell_index_of m) ps) (int c)) [0 ..< ?n]"
    if "bincount (map (cell_index_of m) ps) (res ^ 3) = Inr lc" "lc \<in> set counts" for ps lc
  proof -
    from that(2) lens have "length lc = ?n" by auto
    with bincount_Inr [OF that(1)] show ?thesis by auto
  qed
  have all2': "list_all2 (\<lambda>ks lc. lc = map (\<lambda>c. count_list ks (int c)) [0 ..< ?n])
      (map (map (cell_index_of m)) ls) counts"
    using all2 each by (auto simp: list_all2_conv_all_nth)
  have keys: "keys = map (cell_index_of m) l0 @ concat (map (map (cell_index_of m)) ls)"
    by (simp add: keys_def map_concat)
  show "cell_count m = map (\<lambda>c. count_list keys (int c)) [0 ..< ?n]"
    unfolding gc keys by (rule fold_add_counts [OF all2' f0])
  with ne show "0 < res ^ 3" by (cases "0 < res ^ 3") auto
  show "\<forall>k\<in>set keys. 0 \<le> k \<and> k < res ^ 3"
  proof
    fix k assume "k \<in> set keys"
    then consider "k \<in> set (map (cell_index_of m) l0)"
      | ps where "ps \<in> set ls" "k \<in> set (map (cell_index_of m) ps)"
      by (auto simp: keys)
    then show "0 \<le> k \<and> k < res ^ 3"
    proof cases
      case 1
      with k0 show ?thesis by blast
    next
      case 2
      from 2(1) obtain i where i: "i < length ls" "ls ! i = ps"
        by (auto simp: in_set_conv_nth)
      from all2 i have "counts ! i \<in> set counts"
        "bincount (map (cell_index_of m) ps) (res ^ 3) = Inr (counts ! i)"
        by (auto simp: list_all2_conv_all_nth)
      from each [OF this(2) this(1)] 2(2) show ?thesis by blast
    qed
  qed
  show "sort_idx m = shared_full (ps (map (map (cell_index_of m)) (l0 # ls)))"
    by (rule si)
qed

subsection \<open>The index array\<close>

lemma chunks_exact:
  "sum_list ns = length xs \<Longrightarrow> concat (chunks ns xs) = xs \<and> map length (chunks ns xs) = ns"
proof (induction ns arbitrary: xs)
  case Nil
  then show ?case by simp
next
  case (Cons n ns)
  then have "sum_list ns = length (drop n xs)" by simp
  from Cons.IH [OF this] Cons.prems show ?case by simp
qed

lemma argsort_stable_ok: "argsort_ok argsort_stable"
proof -
  have "concat (argsort_stable kss) = sort_key (\<lambda>i. concat kss ! i) [0 ..< length (concat kss)] \<and>
        map length (argsort_stable kss) = map length kss" for kss
    unfolding argsort_stable_def
    by (rule chunks_exact) (simp add: length_concat)
  then show ?thesis
    unfolding argsort_ok_def by (simp add: sorted_sort_key)
qed

lemma perm_upt_set:
  assumes "mset s = mset [0 ..< n]"
  shows "set s = {0 ..< n}" "distinct s" "length s = n"
proof -
  from assms have "set_mset (mset s) = set_mset (mset [0 ..< n])" by simp
  then show "set s = {0 ..< n}" by simp
  from assms have "distinct s = distinct [0 ..< n]" by (rule mset_eq_imp_distinct_iff)
  then show "distinct s" by simp
  from assms have "length s = length [0 ..< n]" by (rule mset_eq_length)
  then show "length s = n" by simp
qed

lemma built_sort_idx:
  assumes ok: "argsort_ok ps" and b: "init ps l0 ls res = Inr m"
  shows "mset (sort_idx m) = mset [0 ..< length (concat (l0 # ls))]"
    and "sorted (map (\<lambda>i. map (cell_index_of m) (concat (l0 # ls)) ! i) (sort_idx m))"
proof -
  let ?kss = "map (map (cell_index_of m)) (l0 # ls)"
  have keys: "concat ?kss = map (cell_index_of m) (concat (l0 # ls))"
    by (simp only: map_concat)
  from build_histogram(4) [OF b] have si: "sort_idx m = concat (ps ?kss)"
    by (simp only: shared_full_def)
  from ok have "mset (concat (ps ?kss)) = mset [0 ..< length (concat ?kss)]"
    and "sorted (map (\<lambda>i. concat ?kss ! i) (concat (ps ?kss)))"
    unfolding argsort_ok_def by blast+
  then show "mset (sort_idx m) = mset [0 ..< length (concat (l0 # ls))]"
    and "sorted (map (\<lambda>i. map (cell_index_of m) (concat (l0 # ls)) ! i) (sort_idx m))"
    by (simp_all only: si keys length_map)
qed

lemma build_cell_members:
  assumes ok: "argsort_ok ps" and b: "init ps l0 ls res = Inr m" and c: "c < nat (res ^ 3)"
  shows "cell_members m c =
         filter (\<lambda>x. cell_index_of m (concat (l0 # ls) ! x) = int c) (sort_idx m)"
proof -
  let ?pos = "concat (l0 # ls)"
  let ?keys = "map (cell_index_of m) ?pos"
  note h = build_histogram [OF b]
  from built_sort_idx [OF ok b]
  have perm: "mset (sort_idx m) = mset [0 ..< length ?keys]"
    and srt: "sorted (map (\<lambda>i. ?keys ! i) (sort_idx m))"
    by (simp_all only: length_map)
  from h(3) have nonneg: "\<forall>k\<in>set ?keys. 0 \<le> k" by blast
  from b have off: "cell_offset m = 0 # cumsum (butlast (cell_count m))"
    by (rule build_InrE)
  have "cell_members m c = filter (\<lambda>i. ?keys ! i = int c) (sort_idx m)"
    unfolding cell_members_def off
    by (rule bucket_slice [OF perm srt nonneg h(2) c])
  also have "\<dots> = filter (\<lambda>x. cell_index_of m (?pos ! x) = int c) (sort_idx m)"
  proof (rule filter_cong [OF refl])
    fix x assume "x \<in> set (sort_idx m)"
    with perm_upt_set(1) [OF perm] have "x < length ?pos" by simp
    then show "(?keys ! x = int c) = (cell_index_of m (?pos ! x) = int c)"
      by (simp only: nth_map)
  qed
  finally show ?thesis .
qed

text \<open>
  C3. After a construction that succeeds on \<open>N\<close> particles in all, \<open>sort_idx\<close> is a
  permutation of the global indices \<open>0, ..., N - 1\<close>, there are \<open>resolution\<^sup>3\<close> cells, and
  for every cell \<open>c\<close> the slice of \<open>sort_idx\<close> from \<open>cell_offset[c]\<close> of length
  \<open>cell_count[c]\<close> holds, each once, exactly the global indices of the particles whose
  computed cell index is \<open>c\<close>. The distributed sort is any function that meets its
  contract.
\<close>

theorem sort_idx_groups_by_cell:
  assumes "argsort_ok ps" and "init ps l0 ls res = Inr m"
  shows "mset (sort_idx m) = mset [0 ..< length (shared_full (l0 # ls))] \<and>
         length (cell_count m) = nat (res ^ 3) \<and>
         (\<forall>c. c < length (cell_count m) \<longrightarrow>
            distinct (cell_members m c) \<and>
            set (cell_members m c) =
              {x. x < length (shared_full (l0 # ls)) \<and> cell_index_of m (shared_full (l0 # ls) ! x) = int c})"
proof -
  let ?pos = "concat (l0 # ls)"
  let ?keys = "map (cell_index_of m) ?pos"
  note h = build_histogram [OF assms(2)]
  have perm: "mset (sort_idx m) = mset [0 ..< length ?pos]"
    using assms by (rule built_sort_idx(1))
  have len: "length (cell_count m) = nat (res ^ 3)"
    by (simp add: h(2))
  have cell: "distinct (cell_members m c) \<and>
      set (cell_members m c) = {x. x < length ?pos \<and> cell_index_of m (?pos ! x) = int c}"
    if "c < length (cell_count m)" for c
  proof -
    from that len have c: "c < nat (res ^ 3)" by simp
    note mem = build_cell_members [OF assms c]
    from perm_upt_set [OF perm] show ?thesis
      unfolding mem by auto
  qed
  from perm len cell show ?thesis
    unfolding shared_full_def by blast
qed

theorem sort_idx_groups_by_cell_witness:
  "argsort_ok argsort_stable \<and>
   init argsort_stable scenario_A [] 2 = Inr scenario_A_built \<and>
   mset (sort_idx scenario_A_built) = mset [0 ..< length (shared_full [scenario_A])] \<and>
   sort_idx scenario_A_built = [0, 2, 1] \<and>
   cell_members scenario_A_built 7 = [1] \<and>
   set (cell_members scenario_A_built 7) =
     {x. x < length (shared_full [scenario_A]) \<and>
         cell_index_of scenario_A_built (shared_full [scenario_A] ! x) = int 7}"
proof -
  note t = sort_idx_groups_by_cell [OF argsort_stable_ok build_scenario_A]
  have "(7::nat) < length (cell_count scenario_A_built)"
    by (simp add: scenario_A_built_def)
  with t have "set (cell_members scenario_A_built 7) =
     {x. x < length (shared_full [scenario_A]) \<and>
         cell_index_of scenario_A_built (shared_full [scenario_A] ! x) = int 7}"
    by blast
  moreover from t have
    "mset (sort_idx scenario_A_built) = mset [0 ..< length (shared_full [scenario_A])]"
    by blast
  moreover have "sort_idx scenario_A_built = [0, 2, 1]"
    "cell_members scenario_A_built 7 = [1]"
    by (simp_all add: scenario_A_built_def cell_members_def)
  ultimately show ?thesis
    using argsort_stable_ok build_scenario_A by blast
qed

subsection \<open>Construction on no particles\<close>

lemma isl_amin: "isl (amin l) \<longleftrightarrow> l = []"
  by (cases l) simp_all

text \<open>
  A rank without particles raises at line 24. When every rank is without particles the
  construction ends with that \<open>ValueError\<close>; when other ranks have particles they wait in
  \<^verbatim>\<open>Allreduce\<close> at line 27.
\<close>

lemma init_empty_rank:
  assumes "[] \<in> set (l0 # ls)"
  shows "init ps l0 ls res =
           (if list_all (\<lambda>l. l = []) (l0 # ls) then Inl ValueError else Inl Stalled)"
proof -
  from assms have ex: "list_ex isl (map amin (l0 # ls))"
    by (auto simp: list_ex_iff isl_amin)
  show ?thesis
    unfolding init_def collective_raised [OF ex]
    by (cases l0) (simp_all add: list_all_iff isl_amin)
qed

text \<open>
  C7, as amended. When the total global particle count is zero, the construction fails:
  on every rank \<^verbatim>\<open>np.amin\<close> raises \<^verbatim>\<open>ValueError\<close> on the empty local array, and no mesh
  (no \<open>cell_count\<close>, \<open>cell_offset\<close> or \<open>sort_idx\<close>) is produced.
\<close>

theorem build_no_particles:
  assumes "shared_full (l0 # ls) = []"
  shows "init ps l0 ls res = Inl ValueError"
proof -
  from assms have all: "list_all (\<lambda>l. l = []) (l0 # ls)"
    by (simp add: shared_full_def list_all_iff)
  then have "[] \<in> set (l0 # ls)" by simp
  from init_empty_rank [OF this] all show ?thesis by simp
qed

theorem build_no_particles_witness:
  "shared_full ([] # [[], []]) = ([] :: vec3 list) \<and>
   init argsort_stable [] [[], []] 4 = Inl ValueError"
  using build_no_particles [of "[]" "[[], []]" argsort_stable 4]
  by (simp add: shared_full_def)

text \<open>
  C7 as stated fails: with zero local particles on each of three ranks the construction
  raises, so there is no index to query.
\<close>

theorem build_no_particles_counterexample:
  "init argsort_stable [] [[], []] 2 \<noteq>
     Inr \<lparr> pos_min = (0, 0, 0), pos_max = (0, 0, 0), resolution = 2,
           cell_size = (Num 0, Num 0, Num 0),
           cell_count = [0, 0, 0, 0, 0, 0, 0, 0],
           cell_offset = [0, 0, 0, 0, 0, 0, 0, 0],
           sort_idx = [] \<rparr> \<and>
   init argsort_stable [] [[], []] 2 = Inl ValueError"
  by (simp add: init_def collective_def)

subsection \<open>Scenario B\<close>

lemma argsort_0_7_1:
  assumes "argsort_ok ps"
  shows "ps [[0, 7, 1]] = [[0, 2, 1]]"
proof -
  let ?ks = "[0, 7, 1] :: int list"
  from assms have len: "map length (ps [?ks]) = map length [?ks]"
    and perm': "mset (concat (ps [?ks])) = mset [0 ..< length (concat [?ks])]"
    and srt': "sorted (map (\<lambda>i. concat [?ks] ! i) (concat (ps [?ks])))"
    unfolding argsort_ok_def by blast+
  from len obtain s where one: "ps [?ks] = [s]"
    by (auto simp: map_eq_Cons_conv)
  from perm' srt' one have perm: "mset s = mset [0 ..< length ?ks]"
    and srt: "sorted (map (\<lambda>i. ?ks ! i) s)"
    by simp_all
  note p = perm_upt_set [OF perm]
  from p(3) obtain a b c where s: "s = [a, b, c]"
    by (auto simp: length_Suc_conv numeral_3_eq_3)
  from p(1) s have mem: "set [a, b, c] = {0 ..< length ?ks}" by (simp only:)
  have "a \<in> set [a, b, c]" "b \<in> set [a, b, c]" "c \<in> set [a, b, c]" by simp_all
  then have "a < 3" "b < 3" "c < 3" unfolding mem by simp_all
  then have abc: "a = 0 \<or> a = 1 \<or> a = 2" "b = 0 \<or> b = 1 \<or> b = 2" "c = 0 \<or> c = 1 \<or> c = 2"
    by auto
  from p(2) s have d: "a \<noteq> b" "a \<noteq> c" "b \<noteq> c" by auto
  from srt s have le: "?ks ! a \<le> ?ks ! b" "?ks ! b \<le> ?ks ! c" by auto
  from abc d le have "a = 0 \<and> b = 2 \<and> c = 1"
    by (elim disjE) simp_all
  with s one show ?thesis by simp
qed

lemma build_scenario_A_any:
  assumes "argsort_ok ps"
  shows "init ps scenario_A [] 2 = Inr scenario_A_built"
proof -
  have "init ps scenario_A [] 2 =
      Inr (scenario_A_built \<lparr> sort_idx := shared_full (ps [[0, 7, 1]]) \<rparr>)"
    unfolding scenario_A_def scenario_A_built_def by code_simp
  then show ?thesis
    by (simp add: argsort_0_7_1 [OF assms] scenario_A_built_def shared_full_def)
qed

text \<open>
  C4, as amended. With resolution 2 and the three particles of scenario A, the call
  \<^verbatim>\<open>query((0,0,0), (1.5,1.5,1.5))\<close> returns the global indices 0, 2 and 1: the upper corner
  falls in cell (1,1,1), so all eight cells are visited, cell 7 with particle 1 among them.
  The distributed sort is any function that meets its contract.
\<close>

theorem query_scenario_B:
  assumes "argsort_ok ps"
  shows "\<exists>m. init ps scenario_A [] 2 = Inr m \<and>
             query m (0, 0, 0) (3 / 2, 3 / 2, 3 / 2) = Inr [0, 2, 1]"
proof -
  have "query scenario_A_built (0, 0, 0) (3 / 2, 3 / 2, 3 / 2) = Inr [0, 2, 1]"
    unfolding scenario_A_built_def by code_simp
  with build_scenario_A_any [OF assms] show ?thesis by blast
qed

theorem query_scenario_B_witness:
  "argsort_ok argsort_stable \<and>
   (\<exists>m. init argsort_stable scenario_A [] 2 = Inr m \<and>
        query m (0, 0, 0) (3 / 2, 3 / 2, 3 / 2) = Inr [0, 2, 1])"
  using query_scenario_B [OF argsort_stable_ok] argsort_stable_ok by blast

text \<open>
  C4 as stated fails: index 1 is returned, on the mesh built from the three particles
  (bounding box (0.1,0.1,0.1)-(1.9,1.9,1.9)) and on a mesh with the bounding box
  (0,0,0)-(2,2,2) of the scenario alike.
\<close>

theorem query_scenario_B_counterexample:
  "init argsort_stable scenario_A [] 2 = Inr scenario_A_built \<and>
   query scenario_A_built (0, 0, 0) (3 / 2, 3 / 2, 3 / 2) = Inr [0, 2, 1] \<and>
   query scenario_A_mesh (0, 0, 0) (3 / 2, 3 / 2, 3 / 2) = Inr [0, 2, 1] \<and>
   1 \<in> set [0, 2, 1 :: nat]"
proof -
  have "query scenario_A_built (0, 0, 0) (3 / 2, 3 / 2, 3 / 2) = Inr [0, 2, 1]"
    unfolding scenario_A_built_def by code_simp
  moreover have "query scenario_A_mesh (0, 0, 0) (3 / 2, 3 / 2, 3 / 2) = Inr [0, 2, 1]"
    unfolding scenario_A_mesh_def by code_simp
  ultimately show ?thesis using build_scenario_A by simp
qed

subsection \<open>The dataset map\<close>

lemma setup_snap_one: "setup_aliases snap_one alias_plain = (Inr (), snap_one_ready)"
  unfolding snap_one_def alias_plain_def snap_one_ready_def by code_simp

lemma fold_print_line:
  "fold (\<lambda>key. print_line (f key)) keys out = out @ map f keys"
  by (induction keys arbitrary: out) (simp_all add: print_line_def)

lemma report_missing_lines:
  "report_missing name keys [] =
     [''Dataset '' @ [CHR 0x22] @ name @ [CHR 0x22] @ '' not found!'', ''Available datasets:'']
       @ map (\<lambda>key. ''  '' @ key) keys"
  unfolding report_missing_def fold_print_line by (simp add: print_line_def)

text \<open>
  C9. Once \<^verbatim>\<open>setup_aliases\<close> has made the dataset map, \<^verbatim>\<open>get_dataset(name, data_dict)\<close> leaves
  the object unchanged and does one of four things. For a name that is not a key of the map
  it prints the line \<^verbatim>\<open>Dataset "name" not found!\<close>, the line \<^verbatim>\<open>Available datasets:\<close> and then
  every key of the map, one per line in the order of the map and indented by two blanks, and
  raises \<^verbatim>\<open>KeyError(name)\<close>. For a name that maps to \<open>(ptype, dset)\<close> it prints nothing and
  returns the value stored at \<^verbatim>\<open>data_dict[ptype][dset]\<close>, or raises \<^verbatim>\<open>KeyError(ptype)\<close> when
  \<^verbatim>\<open>data_dict\<close> has no such particle type, or \<^verbatim>\<open>KeyError(dset)\<close> when that particle type has no
  such dataset.
\<close>

theorem get_dataset_lookup:
  assumes "dataset_map s = Some dm"
  shows "(map_of dm name = None \<longrightarrow>
            get_dataset s name data_dict =
              ([''Dataset '' @ [CHR 0x22] @ name @ [CHR 0x22] @ '' not found!'',
                ''Available datasets:''] @ map (\<lambda>key. ''  '' @ key) (map fst dm),
               Inl (KeyError name), s)) \<and>
         (\<forall>ptype dset. map_of dm name = Some (ptype, dset) \<longrightarrow>
            (\<forall>d v. data_dict ptype = Some d \<and> d dset = Some v \<longrightarrow>
               get_dataset s name data_dict = ([], Inr v, s)) \<and>
            (data_dict ptype = None \<longrightarrow>
               get_dataset s name data_dict = ([], Inl (KeyError ptype), s)) \<and>
            (\<forall>d. data_dict ptype = Some d \<and> d dset = None \<longrightarrow>
               get_dataset s name data_dict = ([], Inl (KeyError dset), s)))"
proof (intro conjI impI allI)
  assume "map_of dm name = None"
  then show "get_dataset s name data_dict =
      ([''Dataset '' @ [CHR 0x22] @ name @ [CHR 0x22] @ '' not found!'',
        ''Available datasets:''] @ map (\<lambda>key. ''  '' @ key) (map fst dm),
       Inl (KeyError name), s)"
    using assms by (simp add: get_dataset_def report_missing_lines)
next
  fix ptype dset d v
  assume "map_of dm name = Some (ptype, dset)" "data_dict ptype = Some d \<and> d dset = Some v"
  then show "get_dataset s name data_dict = ([], Inr v, s)"
    using assms by (simp add: get_dataset_def subscript2_def)
next
  fix ptype dset
  assume "map_of dm name = Some (ptype, dset)" "data_dict ptype = None"
  then show "get_dataset s name data_dict = ([], Inl (KeyError ptype), s)"
    using assms by (simp add: get_dataset_def subscript2_def)
next
  fix ptype dset d
  assume "map_of dm name = Some (ptype, dset)" "data_dict ptype = Some d \<and> d dset = None"
  then show "get_dataset s name data_dict = ([], Inl (KeyError dset), s)"
    using assms by (simp add: get_dataset_def subscript2_def)
qed

theorem get_dataset_lookup_witness:
  "dataset_map snap_one_ready \<noteq> None \<and>
   get_dataset snap_one_ready ''PartType0/Mass'' data_one = ([], Inr 42, snap_one_ready) \<and>
   get_dataset snap_one_ready ''Mass'' data_one =
     ([''Dataset '' @ [CHR 0x22] @ ''Mass'' @ [CHR 0x22] @ '' not found!'',
       ''Available datasets:'',
       ''  PartType0/Masses'', ''  PartType0/GroupNr_all'', ''  PartType0/GroupNr_bound'',
       ''  PartType0/Mass''],
      Inl (KeyError ''Mass''), snap_one_ready) \<and>
   get_dataset snap_one_ready ''PartType0/GroupNr_all'' data_one =
     ([], Inl (KeyError ''GroupNr_all''), snap_one_ready) \<and>
   get_dataset snap_one_ready ''PartType0/Mass'' (Map.empty :: string \<rightharpoonup> (string \<rightharpoonup> nat)) =
     ([], Inl (KeyError ''PartType0''), snap_one_ready)"
proof -
  let ?dm = "[(''PartType0/Masses'', (''PartType0'', ''Masses'')),
          (''PartType0/GroupNr_all'', (''PartType0'', ''GroupNr_all'')),
          (''PartType0/GroupNr_bound'', (''PartType0'', ''GroupNr_bound'')),
          (''PartType0/Mass'', (''PartType0'', ''Masses''))]"
  have dm: "dataset_map snap_one_ready = Some ?dm"
    by (simp add: snap_one_ready_def)
  have 1: "map_of ?dm ''PartType0/Mass'' = Some (''PartType0'', ''Masses'')" by simp
  have 2: "map_of ?dm ''Mass'' = None" by simp
  have 3: "data_one ''PartType0'' = Some [''Masses'' \<mapsto> 42]"
    "[''Masses'' \<mapsto> (42::nat)] ''Masses'' = Some 42"
    "[''Masses'' \<mapsto> (42::nat)] ''GroupNr_all'' = None"
    by (simp_all add: data_one_def)
  have 4: "map_of ?dm ''PartType0/GroupNr_all'' = Some (''PartType0'', ''GroupNr_all'')" by simp
  from get_dataset_lookup [OF dm, of "''PartType0/Mass''" data_one] 1 3
  have "get_dataset snap_one_ready ''PartType0/Mass'' data_one = ([], Inr 42, snap_one_ready)"
    by blast
  moreover from get_dataset_lookup [OF dm, of "''Mass''" data_one] 2
  have "get_dataset snap_one_ready ''Mass'' data_one =
     ([''Dataset '' @ [CHR 0x22] @ ''Mass'' @ [CHR 0x22] @ '' not found!'',
       ''Available datasets:''] @ map (\<lambda>key. ''  '' @ key) (map fst ?dm),
      Inl (KeyError ''Mass''), snap_one_ready)"
    by blast
  moreover from get_dataset_lookup [OF dm, of "''PartType0/GroupNr_all''" data_one] 4 3
  have "get_dataset snap_one_ready ''PartType0/GroupNr_all'' data_one =
     ([], Inl (KeyError ''GroupNr_all''), snap_one_ready)"
    by blast
  moreover from get_dataset_lookup [OF dm, of "''PartType0/Mass''" Map.empty] 1
  have "get_dataset snap_one_ready ''PartType0/Mass'' (Map.empty :: string \<rightharpoonup> (string \<rightharpoonup> nat)) =
     ([], Inl (KeyError ''PartType0''), snap_one_ready)"
    by simp
  ultimately show ?thesis using dm by simp
qed

lemma snap_name_inj:
  assumes "CHR ''/'' \<notin> set P" "CHR ''/'' \<notin> set P'" "snap_name P d = snap_name P' d'"
  shows "P = P' \<and> d = d'"
  using assms
proof (induction P arbitrary: P')
  case Nil
  then show ?case by (cases P') (auto simp: snap_name_def)
next
  case (Cons x xs)
  show ?case
  proof (cases P')
    case Nil
    with Cons.prems show ?thesis by (auto simp: snap_name_def)
  next
    case (Cons y ys)
    with Cons.prems have "x = y" "snap_name xs d = snap_name ys d'"
      "CHR ''/'' \<notin> set xs" "CHR ''/'' \<notin> set ys"
      by (auto simp: snap_name_def)
    with Cons.IH [of ys] Cons show ?thesis by simp
  qed
qed

lemma fold_dsets:
  "map_of (fold (\<lambda>dset dm. AList.update (snap_name P dset) (P, dset) dm) ds dm) k =
     (if k \<in> snap_name P ` set ds then Some (P, drop (length P + 1) k) else map_of dm k)"
proof (induction ds arbitrary: dm)
  case Nil
  then show ?case by simp
next
  case (Cons d ds)
  show ?case
    by (simp add: Cons.IH update_conv') (auto simp: snap_name_def)
qed

lemma add_ptype_lookup:
  "map_of (add_ptype in_file P dm) k =
     (if k \<in> snap_name P ` set ((case map_of in_file P of Some dsets \<Rightarrow> dsets | None \<Rightarrow> [])
                                    @ [''GroupNr_all'', ''GroupNr_bound''])
      then Some (P, drop (length P + 1) k) else map_of dm k)"
  unfolding add_ptype_def by (rule fold_dsets)

lemma fold_ptypes:
  assumes "list_all (\<lambda>g. CHR ''/'' \<notin> set g) gs"
    and "P \<in> set gs"
    and "d \<in> set ((case map_of in_file P of Some dsets \<Rightarrow> dsets | None \<Rightarrow> [])
                     @ [''GroupNr_all'', ''GroupNr_bound''])"
  shows "map_of (fold (add_ptype in_file) gs dm) (snap_name P d) = Some (P, d)"
  using assms(1,2)
proof (induction gs rule: rev_induct)
  case Nil
  then show ?case by simp
next
  case (snoc g gs)
  from snoc.prems have ns: "CHR ''/'' \<notin> set g" "list_all (\<lambda>g. CHR ''/'' \<notin> set g) gs"
    by simp_all
  show ?case
  proof (cases "g = P")
    case True
    with assms(3) show ?thesis
      by (simp only: fold_append comp_apply fold_simps add_ptype_lookup)
         (auto simp: snap_name_def)
  next
    case False
    with snoc.prems have P: "P \<in> set gs" by simp
    with ns(2) have nsP: "CHR ''/'' \<notin> set P" by (auto simp: list_all_iff)
    have "snap_name P d \<notin> snap_name g ` X" for X
      using snap_name_inj [OF nsP ns(1)] False by blast
    with snoc.IH [OF ns(2) P] show ?thesis
      by (simp only: fold_append comp_apply fold_simps add_ptype_lookup if_False)
  qed
qed

lemma alias_loop_other_keys:
  assumes "alias_loop aliases dm nc = (r, dm', nc')" and "k \<notin> fst ` set aliases"
  shows "map_of dm' k = map_of dm k"
  using assms
proof (induction aliases dm nc rule: alias_loop.induct)
  case (1 dm nc)
  then show ?case by simp
next
  case (2 al target rest dm nc)
  from "2.prems"(2) have k: "k \<noteq> al" "k \<notin> fst ` set rest" by auto
  show ?case
  proof (cases "\<exists>a b c d. split_on CHR ''/'' al = [a, b] \<and> split_on CHR ''/'' target = [c, d]")
    case True
    then obtain a b c d where sp: "split_on CHR ''/'' al = [a, b]"
      "split_on CHR ''/'' target = [c, d]" by blast
    from "2.prems"(1) sp have "alias_loop rest (AList.update al (c, d) dm)
        (case map_of nc d of None \<Rightarrow> nc
         | Some cols \<Rightarrow> if map_of nc b = None then AList.update b cols nc else nc) =
        (r, dm', nc')"
      by simp
    from "2.IH" [OF sp(1) refl refl sp(2) refl refl this k(2)] k(1)
    show ?thesis by (simp add: update_conv')
  next
    case False
    with "2.prems"(1) show ?thesis
      by (auto split: list.splits)
  qed
qed


text \<open>
  C10, as amended. After \<^verbatim>\<open>setup_aliases(aliases)\<close>, whether it returned or raised on a
  malformed alias: for every particle-type group \<open>P\<close> found in the file, the dataset map
  sends \<^verbatim>\<open>"P/GroupNr_all"\<close> to \<open>(P, "GroupNr_all")\<close>, \<^verbatim>\<open>"P/GroupNr_bound"\<close> to
  \<open>(P, "GroupNr_bound")\<close> and \<^verbatim>\<open>"P/dataset"\<close> to \<open>(P, dataset)\<close> for every dataset of \<open>P\<close>,
  provided the key is not itself a key of \<open>aliases\<close>. Group names are HDF5 link names
  and contain no slash.
\<close>

theorem setup_aliases_file_entries:
  assumes "setup_aliases s aliases = (r, s')"
    and "map_of (datasets_in_file s) P = Some dsets"
    and "list_all (\<lambda>g. CHR ''/'' \<notin> set g) (map fst (datasets_in_file s))"
    and "d \<in> set dsets \<union> {''GroupNr_all'', ''GroupNr_bound''}"
    and "snap_name P d \<notin> fst ` set aliases"
  shows "\<exists>dm. dataset_map s' = Some dm \<and> map_of dm (snap_name P d) = Some (P, d)"
proof -
  obtain dm' nc' where
    loop: "alias_loop aliases (file_entries (datasets_in_file s)) (named_columns s) = (r, dm', nc')"
    and s': "s' = s\<lparr> dataset_map := Some dm', named_columns := nc' \<rparr>"
    using assms(1) by (auto simp: setup_aliases_def split: prod.splits)
  from assms(2) have P: "P \<in> set (map fst (datasets_in_file s))"
    by (auto dest: map_of_SomeD intro: rev_image_eqI)
  from assms(2,4) have d: "d \<in> set ((case map_of (datasets_in_file s) P of
        Some dsets \<Rightarrow> dsets | None \<Rightarrow> []) @ [''GroupNr_all'', ''GroupNr_bound''])"
    by auto
  have "map_of dm' (snap_name P d) = map_of (file_entries (datasets_in_file s)) (snap_name P d)"
    using loop assms(5) by (rule alias_loop_other_keys)
  also have "\<dots> = Some (P, d)"
    unfolding file_entries_def by (rule fold_ptypes [OF assms(3) P d])
  finally show ?thesis by (simp add: s')
qed

theorem setup_aliases_file_entries_witness:
  "setup_aliases snap_one alias_plain = (Inr (), snap_one_ready) \<and>
   map_of (datasets_in_file snap_one) ''PartType0'' = Some [''Masses''] \<and>
   list_all (\<lambda>g. CHR ''/'' \<notin> set g) (map fst (datasets_in_file snap_one)) \<and>
   ''GroupNr_all'' \<in> set [''Masses''] \<union> {''GroupNr_all'', ''GroupNr_bound''} \<and>
   snap_name ''PartType0'' ''GroupNr_all'' \<notin> fst ` set alias_plain \<and>
   (\<exists>dm. dataset_map snap_one_ready = Some dm \<and>
         map_of dm (snap_name ''PartType0'' ''GroupNr_all'') = Some (''PartType0'', ''GroupNr_all''))"
proof -
  have 1: "map_of (datasets_in_file snap_one) ''PartType0'' = Some [''Masses'']"
    by (simp add: snap_one_def)
  have 2: "list_all (\<lambda>g. CHR ''/'' \<notin> set g) (map fst (datasets_in_file snap_one))"
    by (simp add: snap_one_def)
  have 3: "''GroupNr_all'' \<in> set [''Masses''] \<union> {''GroupNr_all'', ''GroupNr_bound''}"
    by simp
  have 4: "snap_name ''PartType0'' ''GroupNr_all'' \<notin> fst ` set alias_plain"
    by (simp add: snap_name_def alias_plain_def)
  from setup_aliases_file_entries [OF setup_snap_one 1 2 3 4] setup_snap_one 1 2 3 4
  show ?thesis by blast
qed

text \<open>
  C10 as stated fails: an alias whose key is \<^verbatim>\<open>"PartType0/GroupNr_all"\<close> is written after
  the entries of the file and replaces the entry of that name.
\<close>

theorem setup_aliases_file_entries_counterexample:
  "map_of (datasets_in_file snap_one) ''PartType0'' = Some [''Masses''] \<and>
   fst (setup_aliases snap_one alias_override) = Inr () \<and>
   dataset_map (snd (setup_aliases snap_one alias_override)) =
     Some [(''PartType0/Masses'', (''PartType0'', ''Masses'')),
           (''PartType0/GroupNr_all'', (''PartType1'', ''Masses'')),
           (''PartType0/GroupNr_bound'', (''PartType0'', ''GroupNr_bound''))]"
  unfolding snap_one_def alias_override_def by code_simp

subsection \<open>The bounding box\<close>

lemma vle_coord: "vle a b \<longleftrightarrow> (\<forall>d. coord d a \<le> coord d b)"
proof
  assume "vle a b"
  then show "\<forall>d. coord d a \<le> coord d b"
    by (auto simp: vle_def intro: axis.induct)
next
  assume "\<forall>d. coord d a \<le> coord d b"
  then show "vle a b" by (simp add: vle_def)
qed

lemma coord_vmin: "coord d (vmin a b) = min (coord d a) (coord d b)"
  by (cases a; cases b; cases d) auto

lemma coord_vmax: "coord d (vmax a b) = max (coord d a) (coord d b)"
  by (cases a; cases b; cases d) auto

lemma fold_vmin_le:
  "coord d (fold vmin ps a) \<le> coord d a \<and> (\<forall>p\<in>set ps. coord d (fold vmin ps a) \<le> coord d p)"
proof (induction ps arbitrary: a)
  case Nil
  then show ?case by simp
next
  case (Cons p ps)
  from Cons.IH [of "vmin p a"] show ?case
    by (auto simp: coord_vmin)
qed

lemma fold_vmax_ge:
  "coord d a \<le> coord d (fold vmax ps a) \<and> (\<forall>p\<in>set ps. coord d p \<le> coord d (fold vmax ps a))"
proof (induction ps arbitrary: a)
  case Nil
  then show ?case by simp
next
  case (Cons p ps)
  from Cons.IH [of "vmax p a"] show ?case
    by (auto simp: coord_vmax)
qed

lemma amin_le:
  assumes "amin l = Inr mn" "p \<in> set l"
  shows "coord d mn \<le> coord d p"
proof (cases l)
  case Nil
  with assms show ?thesis by simp
next
  case (Cons q qs)
  with assms have "mn = fold vmin qs q" by simp
  with fold_vmin_le [of d qs q] assms(2) Cons show ?thesis by auto
qed

lemma amax_ge:
  assumes "amax l = Inr mx" "p \<in> set l"
  shows "coord d p \<le> coord d mx"
proof (cases l)
  case Nil
  with assms show ?thesis by simp
next
  case (Cons q qs)
  with assms have "mx = fold vmax qs q" by simp
  with fold_vmax_ge [of d q qs] assms(2) Cons show ?thesis by auto
qed

lemma build_bbox:
  assumes b: "init ps l0 ls res = Inr m" and p: "p \<in> set (concat (l0 # ls))"
  shows "coord d (pos_min m) \<le> coord d p" "coord d p \<le> coord d (pos_max m)"
proof -
  from b obtain min0 max0 mins maxs where
    a: "amin l0 = Inr min0" "amax l0 = Inr max0"
    "collect (map amin ls) = Inr mins" "collect (map amax ls) = Inr maxs"
    "pos_min m = fold vmin mins min0" "pos_max m = fold vmax maxs max0"
    by (rule build_InrE)
  note lo = fold_vmin_le [of d mins min0, folded a(5)]
  note hi = fold_vmax_ge [of d max0 maxs, folded a(6)]
  from p have "p \<in> set l0 \<or> (\<exists>l\<in>set ls. p \<in> set l)" by auto
  then have "p \<in> set l0 \<or> (\<exists>i<length ls. p \<in> set (ls ! i))"
    by (metis in_set_conv_nth)
  then consider "p \<in> set l0" | i where "i < length ls" "p \<in> set (ls ! i)"
    by blast
  then have "coord d (pos_min m) \<le> coord d p \<and> coord d p \<le> coord d (pos_max m)"
  proof cases
    case 1
    from amin_le [OF a(1) 1, of d] amax_ge [OF a(2) 1, of d] lo hi
    show ?thesis by auto
  next
    case 2
    from collect_map_Inr [OF a(3)] 2(1)
    have mn: "amin (ls ! i) = Inr (mins ! i)" "mins ! i \<in> set mins"
      by (auto simp: list_all2_conv_all_nth)
    from collect_map_Inr [OF a(4)] 2(1)
    have mx: "amax (ls ! i) = Inr (maxs ! i)" "maxs ! i \<in> set maxs"
      by (auto simp: list_all2_conv_all_nth)
    from amin_le [OF mn(1) 2(2), of d] amax_ge [OF mx(1) 2(2), of d] lo hi mn(2) mx(2)
    show ?thesis by force
  qed
  then show "coord d (pos_min m) \<le> coord d p" "coord d p \<le> coord d (pos_max m)"
    by simp_all
qed

subsection \<open>Cell coordinates\<close>

lemma coord_cell_coords:
  "coord d (cell_coords res lo cs p) = axis_cell res (coord d lo) (coord d cs) (coord d p)"
  by (cases lo; cases cs; cases p; cases d) auto

lemma coord_box_cell_size:
  "coord d (box_cell_size res lo hi) = np_divide (coord d hi - coord d lo) (Num (of_int res))"
  by (cases lo; cases hi; cases d) auto

lemma axis_cell_range:
  assumes "1 \<le> res"
  shows "0 \<le> axis_cell res lo cs x" "axis_cell res lo cs x \<le> res - 1"
  using assms by (simp_all add: axis_cell_def np_clip_def)

lemma axis_cell_zero_size:
  assumes "1 \<le> res"
  shows "axis_cell res lo (Num 0) x = 0"
proof -
  have "astype_int32 (np_floor (np_divide (x - lo) (Num 0))) = int32_min"
    by simp
  with assms show ?thesis
    by (simp add: axis_cell_def np_clip_def int32_min_def)
qed

lemma wrap32_id:
  assumes "0 \<le> v" "v < 2 ^ 31"
  shows "wrap32 v = v"
  using assms by (simp add: wrap32_def)

lemma linear_range:
  fixes res :: int
  assumes "1 \<le> res" "0 \<le> i" "i \<le> res - 1" "0 \<le> j" "j \<le> res - 1" "0 \<le> k" "k \<le> res - 1"
  shows "0 \<le> i + res * j + res ^ 2 * k" "i + res * j + res ^ 2 * k < res ^ 3"
proof -
  from assms have "0 \<le> res * j" "0 \<le> res ^ 2 * k" by simp_all
  with assms show "0 \<le> i + res * j + res ^ 2 * k" by linarith
  from assms have "res * j \<le> res * (res - 1)"
    by (intro mult_left_mono) simp_all
  moreover from assms have "res ^ 2 * k \<le> res ^ 2 * (res - 1)"
    by (intro mult_left_mono) simp_all
  moreover have "(res - 1) + res * (res - 1) + res ^ 2 * (res - 1) = res ^ 3 - 1"
    by (simp add: algebra_simps power2_eq_square power3_eq_cube)
  ultimately show "i + res * j + res ^ 2 * k < res ^ 3"
    using assms(3) by linarith
qed

lemma cell_key_range:
  assumes "1 \<le> res" "res ^ 3 \<le> 2 ^ 31"
  shows "linear_idx32 res (cell_coords res lo cs p) =
           coord X (cell_coords res lo cs p) + res * coord Y (cell_coords res lo cs p)
             + res ^ 2 * coord Z (cell_coords res lo cs p)"
    and "0 \<le> linear_idx32 res (cell_coords res lo cs p)"
    and "linear_idx32 res (cell_coords res lo cs p) < res ^ 3"
proof -
  obtain i j k where c: "cell_coords res lo cs p = (i, j, k)"
    by (cases "cell_coords res lo cs p") auto
  from coord_cell_coords [of X res lo cs p] coord_cell_coords [of Y res lo cs p]
    coord_cell_coords [of Z res lo cs p] axis_cell_range [OF assms(1)] c
  have r: "0 \<le> i" "i \<le> res - 1" "0 \<le> j" "j \<le> res - 1" "0 \<le> k" "k \<le> res - 1"
    by simp_all
  note l = linear_range [OF assms(1) r]
  from l assms(2) have w: "wrap32 (i + res * j + res ^ 2 * k) = i + res * j + res ^ 2 * k"
    by (intro wrap32_id) simp_all
  show "linear_idx32 res (cell_coords res lo cs p) =
           coord X (cell_coords res lo cs p) + res * coord Y (cell_coords res lo cs p)
             + res ^ 2 * coord Z (cell_coords res lo cs p)"
    by (simp add: c w)
  show "0 \<le> linear_idx32 res (cell_coords res lo cs p)"
    using l by (simp add: c w)
  show "linear_idx32 res (cell_coords res lo cs p) < res ^ 3"
    using l by (simp add: c w)
qed

subsection \<open>When the construction succeeds\<close>

lemma fold_max_le:
  fixes a b :: int
  shows "a \<le> b \<Longrightarrow> \<forall>k\<in>set ks. k \<le> b \<Longrightarrow> fold max ks a \<le> b"
  by (induction ks arbitrary: a) auto

lemma bincount_in_range:
  assumes "0 < n" "\<forall>k\<in>set ks. 0 \<le> k \<and> k < n"
  shows "bincount ks n = Inr (map (\<lambda>c. count_list ks (int c)) [0 ..< nat n])"
proof -
  from assms have "fold max ks (- 1) \<le> n - 1"
    by (intro fold_max_le) auto
  with assms(1) have "max (nat n) (nat (fold max ks (- 1) + 1)) = nat n"
    by simp
  moreover from assms(2) have "\<not> list_ex (\<lambda>k. k < 0) ks"
    by (auto simp: list_ex_iff)
  ultimately show ?thesis
    using assms(1) by (simp add: bincount_def)
qed

lemma collect_map_total:
  "(\<And>x. x \<in> set xs \<Longrightarrow> f x = Inr (g x)) \<Longrightarrow> collect (map f xs) = Inr (map g xs)"
  by (induction xs) auto

lemma length_fold_map2:
  "length acc = n \<Longrightarrow> \<forall>lc\<in>set counts. length lc = n \<Longrightarrow>
   length (fold (\<lambda>lc acc. map2 (+) acc lc) counts acc) = n"
  by (induction counts arbitrary: acc) auto

lemma build_total:
  assumes "l0 \<noteq> []" "list_all (\<lambda>l. l \<noteq> []) ls" "1 \<le> res" "res ^ 3 \<le> 2 ^ 31"
  shows "\<exists>m. init ps l0 ls res = Inr m"
proof -
  from assms(1) obtain min0 max0 where a1: "amin l0 = Inr min0" and a2: "amax l0 = Inr max0"
    by (cases l0) auto
  have a3: "collect (map amin ls) = Inr (map (\<lambda>l. fold vmin (tl l) (hd l)) ls)"
  proof (rule collect_map_total)
    fix l assume "l \<in> set ls"
    with assms(2) have "l \<noteq> []" by (auto simp: list_all_iff)
    then show "amin l = Inr (fold vmin (tl l) (hd l))" by (cases l) auto
  qed
  have a4: "collect (map amax ls) = Inr (map (\<lambda>l. fold vmax (tl l) (hd l)) ls)"
  proof (rule collect_map_total)
    fix l assume "l \<in> set ls"
    with assms(2) have "l \<noteq> []" by (auto simp: list_all_iff)
    then show "amax l = Inr (fold vmax (tl l) (hd l))" by (cases l) auto
  qed
  define pmin where "pmin = fold vmin (map (\<lambda>l. fold vmin (tl l) (hd l)) ls) min0"
  define pmax where "pmax = fold vmax (map (\<lambda>l. fold vmax (tl l) (hd l)) ls) max0"
  define csz where "csz = box_cell_size res pmin pmax"
  define cell_idx where
    "cell_idx = (\<lambda>l. map (\<lambda>p. linear_idx32 res (cell_coords res pmin csz p)) l)"
  define cnt where "cnt = (\<lambda>l. map (\<lambda>c. count_list (cell_idx l) (int c)) [0 ..< nat (res ^ 3)])"
  from assms(3) have pos: "0 < res ^ 3" by simp
  have c: "bincount (cell_idx l) (res ^ 3) = Inr (cnt l)" for l
    unfolding cnt_def
  proof (rule bincount_in_range [OF pos])
    show "\<forall>k\<in>set (cell_idx l). 0 \<le> k \<and> k < res ^ 3"
      using cell_key_range(2,3) [OF assms(3,4)] by (auto simp: cell_idx_def)
  qed
  have cs: "collect (map (\<lambda>l. bincount (cell_idx l) (res ^ 3)) ls) = Inr (map cnt ls)"
    by (rule collect_map_total) (rule c)
  have len: "length (cnt l) = nat (res ^ 3)" for l
    by (simp add: cnt_def)
  let ?g = "fold (\<lambda>lc acc. map2 (+) acc lc) (map cnt ls) (cnt l0)"
  have red: "reduce_sum (res ^ 3) (cnt l0) (map cnt ls) = Inr ?g"
    using pos by (simp add: reduce_sum_def list_all_iff len)
  have "length ?g = nat (res ^ 3)"
    by (rule length_fold_map2) (auto simp: len)
  with pos have ne: "?g \<noteq> []" by auto
  have "init ps l0 ls res =
      Inr \<lparr> pos_min = pmin, pos_max = pmax, resolution = res, cell_size = csz,
            cell_count = ?g, cell_offset = 0 # cumsum (butlast ?g),
            sort_idx = shared_full (ps (map cell_idx (l0 # ls))) \<rparr>"
  proof -
    from assms(1,2) have "\<not> list_ex isl (map amin (l0 # ls))"
      by (auto simp: list_ex_iff list_all_iff isl_amin)
    then have g1: "collective (map amin (l0 # ls)) k = k" for k :: "py_error + shared_mesh"
      by (rule collective_pass)
    have "\<not> list_ex isl (map (\<lambda>l. bincount (cell_idx l) (res ^ 3)) (l0 # ls))"
      by (simp add: list_ex_iff c)
    then have g2: "collective (map (\<lambda>l. bincount (cell_idx l) (res ^ 3)) (l0 # ls)) k = k"
      for k :: "py_error + shared_mesh"
      by (rule collective_pass)
    show ?thesis
      unfolding init_def g1 a1 a2 a3 a4 bind_err.simps Let_def
        pmin_def [symmetric] pmax_def [symmetric] csz_def [symmetric]
      using c [of l0] cs red ne g2
      by (simp add: cell_idx_def)
  qed
  then show ?thesis ..
qed


lemma build_resolution:
  assumes "init ps l0 ls res = Inr m"
  shows "1 \<le> res" "resolution m = res"
    "cell_size m = box_cell_size res (pos_min m) (pos_max m)"
proof -
  from build_histogram(1) [OF assms] have "0 < res ^ 3" .
  then have "0 < res" by (simp add: zero_less_power_eq)
  then show "1 \<le> res" by simp
  from assms show "resolution m = res"
    "cell_size m = box_cell_size res (pos_min m) (pos_max m)"
    by (auto elim: build_InrE)
qed

lemma build_particle_key:
  assumes "init ps l0 ls res = Inr m" "p \<in> set (concat (l0 # ls))"
  shows "0 \<le> cell_index_of m p" "cell_index_of m p < res ^ 3"
  using build_histogram(3) [OF assms(1)] assms(2) by auto




subsection \<open>A bounding box without extent on an axis\<close>

lemma fold_vmin_in:
  "coord d (fold vmin ps a) \<in> insert (coord d a) (coord d ` set ps)"
proof (induction ps arbitrary: a)
  case Nil
  then show ?case by simp
next
  case (Cons p ps)
  from Cons.IH [of "vmin p a"] show ?case
    by (auto simp: coord_vmin min_def split: if_splits)
qed

lemma fold_vmax_in:
  "coord d (fold vmax ps a) \<in> insert (coord d a) (coord d ` set ps)"
proof (induction ps arbitrary: a)
  case Nil
  then show ?case by simp
next
  case (Cons p ps)
  from Cons.IH [of "vmax p a"] show ?case
    by (auto simp: coord_vmax max_def split: if_splits)
qed

lemma build_bbox_attained:
  assumes b: "init ps l0 ls res = Inr m"
  shows "coord d (pos_min m) \<in> coord d ` set (concat (l0 # ls))"
    and "coord d (pos_max m) \<in> coord d ` set (concat (l0 # ls))"
proof -
  from b obtain min0 max0 mins maxs where
    a: "amin l0 = Inr min0" "amax l0 = Inr max0"
    "collect (map amin ls) = Inr mins" "collect (map amax ls) = Inr maxs"
    "pos_min m = fold vmin mins min0" "pos_max m = fold vmax maxs max0"
    by (rule build_InrE)
  have amin_in: "coord d mn \<in> coord d ` set l" if "amin l = Inr mn" for l mn
  proof (cases l)
    case Nil
    with that show ?thesis by simp
  next
    case (Cons q qs)
    with that fold_vmin_in [of d qs q] show ?thesis by auto
  qed
  have amax_in: "coord d mx \<in> coord d ` set l" if "amax l = Inr mx" for l mx
  proof (cases l)
    case Nil
    with that show ?thesis by simp
  next
    case (Cons q qs)
    with that fold_vmax_in [of d qs q] show ?thesis by auto
  qed
  have mins: "coord d mn \<in> coord d ` set (concat ls)" if "mn \<in> set mins" for mn
  proof -
    from that obtain i where i: "i < length mins" "mins ! i = mn"
      by (auto simp: in_set_conv_nth)
    with collect_map_Inr [OF a(3)] have "amin (ls ! i) = Inr mn" "i < length ls"
      by (auto simp: list_all2_conv_all_nth)
    with amin_in [of "ls ! i" mn] show ?thesis by force
  qed
  have maxs: "coord d mx \<in> coord d ` set (concat ls)" if "mx \<in> set maxs" for mx
  proof -
    from that obtain i where i: "i < length maxs" "maxs ! i = mx"
      by (auto simp: in_set_conv_nth)
    with collect_map_Inr [OF a(4)] have "amax (ls ! i) = Inr mx" "i < length ls"
      by (auto simp: list_all2_conv_all_nth)
    with amax_in [of "ls ! i" mx] show ?thesis by force
  qed
  have sub: "coord d ` set l0 \<subseteq> coord d ` set (concat (l0 # ls))"
    "coord d ` set (concat ls) \<subseteq> coord d ` set (concat (l0 # ls))"
    by auto
  from fold_vmin_in [of d mins min0]
  have "coord d (pos_min m) = coord d min0 \<or> (\<exists>mn\<in>set mins. coord d (pos_min m) = coord d mn)"
    unfolding a(5) by auto
  with amin_in [OF a(1)] mins sub
  show "coord d (pos_min m) \<in> coord d ` set (concat (l0 # ls))"
    by (metis subsetD)
  from fold_vmax_in [of d maxs max0]
  have "coord d (pos_max m) = coord d max0 \<or> (\<exists>mx\<in>set maxs. coord d (pos_max m) = coord d mx)"
    unfolding a(6) by auto
  with amax_in [OF a(2)] maxs sub
  show "coord d (pos_max m) \<in> coord d ` set (concat (l0 # ls))"
    by (metis subsetD)
qed

text \<open>
  C8. When every particle has the same coordinate \<open>a\<close> on an axis \<open>d\<close> (so that the
  bounding box has no extent and \<open>cell_size\<close> is 0 there), and the construction is
  otherwise possible (particles on every rank, a resolution of at least 1 whose cube fits
  int32), it returns a mesh: the division by the zero cell size gives \<open>inf\<close> or \<open>nan\<close>, the
  cast and the clip turn it into the cell coordinate 0, and every particle gets coordinate 0
  on that axis and a cell index that is a cell of the mesh.
\<close>

theorem degenerate_axis_build:
  assumes "l0 \<noteq> []" and "list_all (\<lambda>l. l \<noteq> []) ls" and "1 \<le> res" and "res ^ 3 \<le> 2 ^ 31"
    and "list_all (\<lambda>p. coord d p = a) (shared_full (l0 # ls))"
  shows "\<exists>m. init ps l0 ls res = Inr m \<and>
              coord d (pos_min m) = a \<and> coord d (pos_max m) = a \<and>
              coord d (cell_size m) = Num 0 \<and>
              list_all (\<lambda>p. coord d (cell_coords res (pos_min m) (cell_size m) p) = 0 \<and>
                            0 \<le> cell_index_of m p \<and> cell_index_of m p < res ^ 3)
                (shared_full (l0 # ls))"
proof -
  from build_total [OF assms(1-4)] obtain m where b: "init ps l0 ls res = Inr m" ..
  note r = build_resolution [OF b]
  from assms(5) [unfolded shared_full_def] have all: "coord d ` set (concat (l0 # ls)) \<subseteq> {a}"
    by (auto simp: list_all_iff)
  with build_bbox_attained [OF b, of d]
  have lo: "coord d (pos_min m) = a" and hi: "coord d (pos_max m) = a"
    by blast+
  from assms(3) have cs: "coord d (cell_size m) = Num 0"
    by (simp add: r(3) coord_box_cell_size lo hi)
  have "coord d (cell_coords res (pos_min m) (cell_size m) p) = 0 \<and>
        0 \<le> cell_index_of m p \<and> cell_index_of m p < res ^ 3"
    if "p \<in> set (concat (l0 # ls))" for p
    using build_particle_key [OF b that] axis_cell_zero_size [OF assms(3)]
    by (simp add: coord_cell_coords cs)
  then have "list_all (\<lambda>p. coord d (cell_coords res (pos_min m) (cell_size m) p) = 0 \<and>
                            0 \<le> cell_index_of m p \<and> cell_index_of m p < res ^ 3)
                (concat (l0 # ls))"
    unfolding list_all_iff by blast
  with b lo hi cs show ?thesis
    unfolding shared_full_def by blast
qed

theorem degenerate_axis_build_witness:
  "flat_rank0 \<noteq> [] \<and> list_all (\<lambda>l. l \<noteq> []) [flat_rank1] \<and>
   (1 :: int) \<le> 2 \<and> (2 :: int) ^ 3 \<le> 2 ^ 31 \<and>
   list_all (\<lambda>p. coord Z p = 0) (shared_full [flat_rank0, flat_rank1]) \<and>
   (\<exists>m. init argsort_stable flat_rank0 [flat_rank1] 2 = Inr m \<and>
        coord Z (pos_min m) = 0 \<and> coord Z (pos_max m) = 0 \<and>
        coord Z (cell_size m) = Num 0 \<and>
        list_all (\<lambda>p. coord Z (cell_coords 2 (pos_min m) (cell_size m) p) = 0 \<and>
                      0 \<le> cell_index_of m p \<and> cell_index_of m p < 2 ^ 3)
          (shared_full [flat_rank0, flat_rank1]))"
proof -
  have 1: "flat_rank0 \<noteq> []" by (simp add: flat_rank0_def)
  have 2: "list_all (\<lambda>l. l \<noteq> []) [flat_rank1]" by (simp add: flat_rank1_def)
  have 3: "(1 :: int) \<le> 2" "(2 :: int) ^ 3 \<le> 2 ^ 31" by simp_all
  have 4: "list_all (\<lambda>p. coord Z p = (0 :: real)) (shared_full [flat_rank0, flat_rank1])"
    by (simp add: flat_rank0_def flat_rank1_def shared_full_def)
  from degenerate_axis_build [OF 1 2 3 4, of argsort_stable] 1 2 3 4
  show ?thesis by blast
qed

subsection \<open>Queries within the int32 range\<close>

lemma np_getitem_in_range:
  assumes "0 \<le> c" "c < int (length xs)"
  shows "np_getitem xs c = Inr (xs ! nat c)"
  using assms by (simp add: np_getitem_def)

lemma gather_in_range:
  assumes "length (cell_offset m) = length (cell_count m)"
    and "\<forall>c\<in>set cs. 0 \<le> c \<and> c < int (length (cell_count m))"
  shows "\<exists>idx. gather m cs = Inr idx \<and>
               concat idx = concat (map (\<lambda>c. cell_members m (nat c)) cs)"
  using assms(2)
proof (induction cs)
  case Nil
  then show ?case by simp
next
  case (Cons c cs)
  then obtain idx where idx: "gather m cs = Inr idx"
    "concat idx = concat (map (\<lambda>c. cell_members m (nat c)) cs)"
    by auto
  from Cons.prems have c: "0 \<le> c" "c < int (length (cell_count m))" by simp_all
  with assms(1) have g: "np_getitem (cell_offset m) c = Inr (cell_offset m ! nat c)"
    "np_getitem (cell_count m) c = Inr (cell_count m ! nat c)"
    by (simp_all add: np_getitem_in_range)
  show ?case
    by (simp add: g idx cell_members_def)
qed

lemma gather_radius_in_range:
  assumes "length (cell_offset m) = length (cell_count m)"
    and "\<forall>x\<in>set (sort_idx m). x < length pos"
    and "\<forall>c\<in>set cs. 0 \<le> c \<and> c < int (length (cell_count m))"
  shows "\<exists>idx. gather_radius m ctr radius pos cs = Inr idx \<and>
               concat idx =
                 concat (map (\<lambda>c. filter (\<lambda>x. r2 ctr (pos ! x) \<le> radius * radius)
                                      (cell_members m (nat c))) cs)"
  using assms(3)
proof (induction cs)
  case Nil
  then show ?case by simp
next
  case (Cons c cs)
  then obtain idx where idx: "gather_radius m ctr radius pos cs = Inr idx"
    "concat idx = concat (map (\<lambda>c. filter (\<lambda>x. r2 ctr (pos ! x) \<le> radius * radius)
                                      (cell_members m (nat c))) cs)"
    by auto
  from Cons.prems have c: "0 \<le> c" "c < int (length (cell_count m))" by simp_all
  with assms(1) have g: "np_getitem (cell_offset m) c = Inr (cell_offset m ! nat c)"
    "np_getitem (cell_count m) c = Inr (cell_count m ! nat c)"
    by (simp_all add: np_getitem_in_range)
  have "set (cell_members m (nat c)) \<subseteq> set (sort_idx m)"
    unfolding cell_members_def
    by (meson set_take_subset set_drop_subset subset_trans)
  with assms(2) have "\<forall>x\<in>set (cell_members m (nat c)). x < length pos"
    by blast
  then have ok: "\<not> list_ex (\<lambda>x. length pos \<le> x) (cell_members m (nat c))"
    unfolding list_ex_iff by (meson not_le)
  show ?case
    using ok by (simp add: g idx cell_members_def Let_def)
qed

lemma set_cell_numbers:
  "set (cell_numbers res (i0, j0, k0) (i1, j1, k1)) =
     (\<Union>k\<in>{k0 .. k1}. \<Union>j\<in>{j0 .. j1}. (\<lambda>i. i + res * j + res ^ 2 * k) ` {i0 .. i1})"
  by (simp only: cell_numbers.simps set_concat set_map set_upto image_image)

lemma cell_numbers_member:
  assumes "i0 \<le> i" "i \<le> i1" "j0 \<le> j" "j \<le> j1" "k0 \<le> k" "k \<le> k1"
  shows "i + res * j + res ^ 2 * k \<in> set (cell_numbers res (i0, j0, k0) (i1, j1, k1))"
proof -
  from assms have "k \<in> {k0 .. k1}" "j \<in> {j0 .. j1}" "i \<in> {i0 .. i1}" by simp_all
  then show ?thesis unfolding set_cell_numbers by blast
qed

lemma cell_numbers_form:
  assumes "c \<in> set (cell_numbers res (i0, j0, k0) (i1, j1, k1))"
  obtains i j k where "c = i + res * j + res ^ 2 * k"
    "i0 \<le> i" "i \<le> i1" "j0 \<le> j" "j \<le> j1" "k0 \<le> k" "k \<le> k1"
proof -
  from assms obtain k j i where "k \<in> {k0 .. k1}" "j \<in> {j0 .. j1}" "i \<in> {i0 .. i1}"
    "c = i + res * j + res ^ 2 * k"
    unfolding set_cell_numbers by blast
  with that show ?thesis by simp
qed

lemma astype_int32_of_int:
  "astype_int32 (Num (of_int a)) = (if int32_min \<le> a \<and> a < 2 ^ 31 then a else int32_min)"
proof -
  have "(if 0 \<le> (of_int a :: real) then \<lfloor>(of_int a :: real)\<rfloor> else \<lceil>(of_int a :: real)\<rceil>) = a"
    by simp
  then show ?thesis
    by (simp only: astype_int32.simps Let_def)
qed

lemma astype_int32_mono_int:
  assumes "a \<le> b" "b < 2 ^ 31"
  shows "astype_int32 (Num (of_int a)) \<le> astype_int32 (Num (of_int b))"
proof -
  have "(if int32_min \<le> a \<and> a < 2 ^ 31 then a else int32_min) \<le>
        (if int32_min \<le> b \<and> b < 2 ^ 31 then b else int32_min)"
    using assms by (simp add: int32_min_def)
  then show ?thesis by (simp only: astype_int32_of_int)
qed

lemma np_clip_mono: "a \<le> b \<Longrightarrow> np_clip a lo hi \<le> np_clip b lo hi"
  by (auto simp: np_clip_def min_def max_def)

lemma axis_cell_mono:
  assumes "0 \<le> c" and "x \<le> y" and "c \<le> 0 \<or> \<lfloor>(y - lo) / c\<rfloor> < 2 ^ 31"
  shows "axis_cell res lo (Num c) x \<le> axis_cell res lo (Num c) y"
proof (cases "c = 0")
  case True
  then show ?thesis by (simp add: axis_cell_def)
next
  case False
  with assms have c: "0 < c" and hi: "\<lfloor>(y - lo) / c\<rfloor> < 2 ^ 31" by auto
  let ?a = "\<lfloor>(x - lo) / c\<rfloor>" and ?b = "\<lfloor>(y - lo) / c\<rfloor>"
  from c assms(2) have "(x - lo) / c \<le> (y - lo) / c"
    by (simp add: divide_right_mono)
  then have ab: "?a \<le> ?b" by (rule floor_mono)
  have f: "np_floor (np_divide (x - lo) (Num c)) = Num (of_int ?a)"
    "np_floor (np_divide (y - lo) (Num c)) = Num (of_int ?b)"
    using False by simp_all
  show ?thesis
    unfolding axis_cell_def f
    by (rule np_clip_mono) (rule astype_int32_mono_int [OF ab hi])
qed

lemma resolution_fits:
  fixes res :: int
  assumes "1 \<le> res" "res ^ 3 \<le> 2 ^ 31"
  shows "res < 2 ^ 31"
proof (rule ccontr)
  assume "\<not> res < 2 ^ 31"
  then have big: "2 ^ 31 \<le> res" by simp
  then have "(2 ^ 31 :: int) * 1 \<le> res * res"
    by (intro mult_mono) (use assms(1) in simp_all)
  then have "(2 ^ 31 :: int) * 2 ^ 31 \<le> res * res * res"
    using big by (intro mult_mono) simp_all
  with assms(2) show False by (simp add: power3_eq_cube)
qed

lemma built_axis:
  assumes b: "init ps l0 ls res = Inr m" and r: "res ^ 3 \<le> 2 ^ 31"
    and p: "p \<in> set (concat (l0 # ls))"
  shows "coord d q \<le> coord d p \<Longrightarrow>
           coord d (cell_coords res (pos_min m) (cell_size m) q)
             \<le> coord d (cell_coords res (pos_min m) (cell_size m) p)"
    and "coord d p \<le> coord d q \<Longrightarrow> axis_in_int32 m d q \<Longrightarrow>
           coord d (cell_coords res (pos_min m) (cell_size m) p)
             \<le> coord d (cell_coords res (pos_min m) (cell_size m) q)"
proof -
  note bres = build_resolution [OF b]
  let ?lo = "coord d (pos_min m)" and ?hi = "coord d (pos_max m)"
  let ?c = "(?hi - ?lo) / of_int res"
  from bres(1) have rpos: "(0 :: real) < of_int res" by simp
  from build_bbox [OF b p, of d] have box: "?lo \<le> coord d p" "coord d p \<le> ?hi" .
  then have c0: "0 \<le> ?c" using rpos by simp
  have cs: "coord d (cell_size m) = Num ?c"
    using rpos by (simp add: bres(3) coord_box_cell_size)
  have pin: "?c \<le> 0 \<or> \<lfloor>(coord d p - ?lo) / ?c\<rfloor> < 2 ^ 31"
  proof (cases "?c \<le> 0")
    case True
    then show ?thesis ..
  next
    case False
    then have cpos: "0 < ?c" by simp
    with rpos have ext: "0 < ?hi - ?lo" by (simp add: zero_less_divide_iff)
    have "coord d p - ?lo \<le> ?hi - ?lo" using box(2) by simp
    then have "(coord d p - ?lo) / ?c \<le> (?hi - ?lo) / ?c"
      using cpos by (intro divide_right_mono) simp_all
    also have "(?hi - ?lo) / ?c = of_int res"
      using ext rpos by simp
    finally have "\<lfloor>(coord d p - ?lo) / ?c\<rfloor> \<le> \<lfloor>of_int res :: real\<rfloor>"
      by (rule floor_mono)
    then have "\<lfloor>(coord d p - ?lo) / ?c\<rfloor> \<le> res"
      by (simp only: floor_of_int)
    then have "\<lfloor>(coord d p - ?lo) / ?c\<rfloor> < 2 ^ 31"
      using resolution_fits [OF bres(1) r] by (rule le_less_trans)
    then show ?thesis ..
  qed
  show "coord d (cell_coords res (pos_min m) (cell_size m) q)
          \<le> coord d (cell_coords res (pos_min m) (cell_size m) p)"
    if "coord d q \<le> coord d p"
    unfolding coord_cell_coords cs using c0 that pin by (rule axis_cell_mono)
  show "coord d (cell_coords res (pos_min m) (cell_size m) p)
          \<le> coord d (cell_coords res (pos_min m) (cell_size m) q)"
    if "coord d p \<le> coord d q" "axis_in_int32 m d q"
  proof -
    from that(2) have "?c \<le> 0 \<or> \<lfloor>(coord d q - ?lo) / ?c\<rfloor> < 2 ^ 31"
      by (simp add: axis_in_int32_def cs)
    with c0 that(1) show ?thesis
      unfolding coord_cell_coords cs by (rule axis_cell_mono)
  qed
qed


lemma built_layout:
  assumes ok: "argsort_ok ps" and b: "init ps l0 ls res = Inr m"
  shows "length (cell_offset m) = length (cell_count m)"
    and "length (cell_count m) = nat (res ^ 3)"
    and "set (sort_idx m) = {0 ..< length (concat (l0 # ls))}"
proof -
  from b have ne: "cell_count m \<noteq> []"
    and off: "cell_offset m = 0 # cumsum (butlast (cell_count m))"
    by (auto elim: build_InrE)
  show "length (cell_offset m) = length (cell_count m)"
    unfolding off using ne by (rule length_offsets)
  note h = build_histogram [OF b]
  show "length (cell_count m) = nat (res ^ 3)"
    by (simp add: h(2))
  have "mset (sort_idx m) = mset [0 ..< length (concat (l0 # ls))]"
    using ok b by (rule built_sort_idx(1))
  then show "set (sort_idx m) = {0 ..< length (concat (l0 # ls))}"
    by (rule perm_upt_set(1))
qed

lemma cells_in_mesh:
  assumes "1 \<le> res"
    and "c \<in> set (cell_numbers res (cell_coords res lo cs q1) (cell_coords res lo cs q2))"
  shows "0 \<le> c \<and> c < res ^ 3"
proof -
  obtain i0 j0 k0 where c1: "cell_coords res lo cs q1 = (i0, j0, k0)"
    by (cases "cell_coords res lo cs q1") auto
  obtain i1 j1 k1 where c2: "cell_coords res lo cs q2 = (i1, j1, k1)"
    by (cases "cell_coords res lo cs q2") auto
  from coord_cell_coords [of X res lo cs q1] coord_cell_coords [of Y res lo cs q1]
    coord_cell_coords [of Z res lo cs q1] axis_cell_range(1) [OF assms(1)] c1
  have lo: "0 \<le> i0" "0 \<le> j0" "0 \<le> k0" by simp_all
  from coord_cell_coords [of X res lo cs q2] coord_cell_coords [of Y res lo cs q2]
    coord_cell_coords [of Z res lo cs q2] axis_cell_range(2) [OF assms(1)] c2
  have hi: "i1 \<le> res - 1" "j1 \<le> res - 1" "k1 \<le> res - 1" by simp_all
  from assms(2) obtain i j k where f: "c = i + res * j + res ^ 2 * k"
    "i0 \<le> i" "i \<le> i1" "j0 \<le> j" "j \<le> j1" "k0 \<le> k" "k \<le> k1"
    unfolding c1 c2 by (rule cell_numbers_form)
  from lo hi f have "0 \<le> i" "i \<le> res - 1" "0 \<le> j" "j \<le> res - 1" "0 \<le> k" "k \<le> res - 1"
    by simp_all
  from linear_range [OF assms(1) this] f(1) show ?thesis by simp
qed

lemma particle_enumerated:
  assumes b: "init ps l0 ls res = Inr m" and r: "res ^ 3 \<le> 2 ^ 31"
    and p: "p \<in> set (concat (l0 # ls))"
    and lo: "vle qmin p" and hi: "vle p qmax" and fit: "corner_in_int32 m qmax"
  shows "cell_index_of m p \<in>
           set (cell_numbers res (cell_coords res (pos_min m) (cell_size m) qmin)
                                 (cell_coords res (pos_min m) (cell_size m) qmax))"
proof -
  let ?cc = "cell_coords res (pos_min m) (cell_size m)"
  note bres = build_resolution [OF b]
  obtain i0 j0 k0 where c1: "?cc qmin = (i0, j0, k0)" by (cases "?cc qmin") auto
  obtain i1 j1 k1 where c2: "?cc qmax = (i1, j1, k1)" by (cases "?cc qmax") auto
  obtain i j k where c: "?cc p = (i, j, k)" by (cases "?cc p") auto
  from lo built_axis(1) [OF b r p, of X qmin] built_axis(1) [OF b r p, of Y qmin]
    built_axis(1) [OF b r p, of Z qmin]
  have l: "i0 \<le> i" "j0 \<le> j" "k0 \<le> k"
    by (simp_all add: vle_def c1 c)
  from hi fit built_axis(2) [OF b r p, of X qmax] built_axis(2) [OF b r p, of Y qmax]
    built_axis(2) [OF b r p, of Z qmax]
  have h: "i \<le> i1" "j \<le> j1" "k \<le> k1"
    by (simp_all add: vle_def corner_in_int32_def c2 c)
  have "cell_index_of m p = i + res * j + res ^ 2 * k"
    using cell_key_range(1) [OF bres(1) r, of "pos_min m" "cell_size m" p]
    by (simp add: cell_index_of_def bres(2) c)
  also have "\<dots> \<in> set (cell_numbers res (i0, j0, k0) (i1, j1, k1))"
    using l(1) h(1) l(2) h(2) l(3) h(3) by (rule cell_numbers_member)
  finally show ?thesis by (simp only: c1 c2)
qed

lemma cell_members_set:
  assumes ok: "argsort_ok ps" and b: "init ps l0 ls res = Inr m"
    and c: "0 \<le> c" "c < res ^ 3"
  shows "set (cell_members m (nat c)) =
           {x. x < length (concat (l0 # ls)) \<and> cell_index_of m (concat (l0 # ls) ! x) = c}"
proof -
  from c have n: "nat c < nat (res ^ 3)" by (simp only: nat_less_eq_zless)
  from c(1) have "int (nat c) = c" by simp
  with build_cell_members [OF ok b n] built_layout(3) [OF ok b]
  show ?thesis by auto
qed

lemma query_result:
  assumes ok: "argsort_ok ps" and b: "init ps l0 ls res = Inr m"
  shows "\<exists>idx. query m qmin qmax = Inr idx \<and>
           set idx = {x. x < length (concat (l0 # ls)) \<and>
                         cell_index_of m (concat (l0 # ls) ! x) \<in>
                           set (cell_numbers res (cell_coords res (pos_min m) (cell_size m) qmin)
                                  (cell_coords res (pos_min m) (cell_size m) qmax))}"
proof -
  note bres = build_resolution [OF b]
  note lay = built_layout [OF ok b]
  let ?cells = "cell_numbers res (cell_coords res (pos_min m) (cell_size m) qmin)
                  (cell_coords res (pos_min m) (cell_size m) qmax)"
  have rng: "\<forall>c\<in>set ?cells. 0 \<le> c \<and> c < res ^ 3"
    using cells_in_mesh [OF bres(1)] by blast
  moreover from build_histogram(1) [OF b] have "int (length (cell_count m)) = res ^ 3"
    by (simp add: lay(2))
  ultimately have "\<forall>c\<in>set ?cells. 0 \<le> c \<and> c < int (length (cell_count m))"
    by simp
  from gather_in_range [OF lay(1) this] obtain idx where
    g: "gather m ?cells = Inr idx"
    and cc: "concat idx = concat (map (\<lambda>c. cell_members m (nat c)) ?cells)"
    by blast
  have q: "query m qmin qmax = Inr (concat idx)"
    by (simp only: query_def Let_def bres(2) g bind_err.simps)
  have "set (concat idx) = (\<Union>c\<in>set ?cells. set (cell_members m (nat c)))"
    by (simp add: cc)
  also have "\<dots> = (\<Union>c\<in>set ?cells.
      {x. x < length (concat (l0 # ls)) \<and> cell_index_of m (concat (l0 # ls) ! x) = c})"
    using rng cell_members_set [OF ok b] by (intro SUP_cong refl) blast
  also have "\<dots> = {x. x < length (concat (l0 # ls)) \<and>
                       cell_index_of m (concat (l0 # ls) ! x) \<in> set ?cells}"
    by blast
  finally show ?thesis using q by blast
qed

text \<open>
  The box query within the int32 range. For a mesh built with a resolution whose cube
  fits int32, and a query box whose upper corner is within the int32 range of the mesh:
  \<^verbatim>\<open>query\<close> returns, it returns every particle whose position lies in the box (bounds
  included), and every index it returns is a particle of one of the cells visited. The
  quotients that give the cell coordinates are the exact ones, so this is a statement in
  real arithmetic.
\<close>

theorem query_superset:
  assumes "argsort_ok ps" and "init ps l0 ls res = Inr m" and "res ^ 3 \<le> 2 ^ 31"
    and "corner_in_int32 m qmax"
  shows "\<exists>idx. query m qmin qmax = Inr idx \<and>
           (\<forall>x. x < length (shared_full (l0 # ls)) \<and>
                vle qmin (shared_full (l0 # ls) ! x) \<and> vle (shared_full (l0 # ls) ! x) qmax
                \<longrightarrow> x \<in> set idx) \<and>
           (\<forall>x\<in>set idx. x < length (shared_full (l0 # ls)) \<and>
                cell_index_of m (shared_full (l0 # ls) ! x) \<in>
                  set (cell_numbers res (cell_coords res (pos_min m) (cell_size m) qmin)
                         (cell_coords res (pos_min m) (cell_size m) qmax)))"
proof -
  from query_result [OF assms(1,2), of qmin qmax] obtain idx where
    q: "query m qmin qmax = Inr idx"
    and s: "set idx = {x. x < length (concat (l0 # ls)) \<and>
                         cell_index_of m (concat (l0 # ls) ! x) \<in>
                           set (cell_numbers res (cell_coords res (pos_min m) (cell_size m) qmin)
                                  (cell_coords res (pos_min m) (cell_size m) qmax))}"
    by blast
  have "x \<in> set idx"
    if "x < length (concat (l0 # ls))" "vle qmin (concat (l0 # ls) ! x)"
      "vle (concat (l0 # ls) ! x) qmax" for x
  proof -
    from that(1) have "concat (l0 # ls) ! x \<in> set (concat (l0 # ls))"
      by (rule nth_mem)
    from particle_enumerated [OF assms(2,3) this that(2,3) assms(4)] that(1)
    show ?thesis unfolding s by blast
  qed
  with q s show ?thesis
    unfolding shared_full_def by blast
qed

lemma r2_box:
  assumes "0 \<le> radius" "r2 (cx, cy, cz) p \<le> radius * radius"
  shows "vle (cx - radius, cy - radius, cz - radius) p"
    and "vle p (cx + radius, cy + radius, cz + radius)"
proof -
  obtain x y z where p: "p = (x, y, z)" by (cases p) auto
  have sq: "(x - cx)\<^sup>2 \<le> radius\<^sup>2" "(y - cy)\<^sup>2 \<le> radius\<^sup>2" "(z - cz)\<^sup>2 \<le> radius\<^sup>2"
  proof -
    have "0 \<le> (x - cx)\<^sup>2" "0 \<le> (y - cy)\<^sup>2" "0 \<le> (z - cz)\<^sup>2" by simp_all
    with assms(2) show "(x - cx)\<^sup>2 \<le> radius\<^sup>2" "(y - cy)\<^sup>2 \<le> radius\<^sup>2" "(z - cz)\<^sup>2 \<le> radius\<^sup>2"
      unfolding p r2.simps power2_eq_square [of radius] by linarith+
  qed
  from sq assms(1) have "\<bar>x - cx\<bar> \<le> radius" "\<bar>y - cy\<bar> \<le> radius" "\<bar>z - cz\<bar> \<le> radius"
    by (simp_all add: abs_le_square_iff [symmetric])
  then show "vle (cx - radius, cy - radius, cz - radius) p"
    and "vle p (cx + radius, cy + radius, cz + radius)"
    unfolding p vle_def by (auto simp: abs_le_iff)
qed

text \<open>
  The sphere query within the int32 range. For a mesh built with a resolution whose cube
  fits int32, the positions it was built from, a radius that is not negative and a sphere
  whose upper corner \<open>centre + radius\<close> is within the int32 range of the mesh:
  \<^verbatim>\<open>query_radius\<close> returns, and the indices it returns are exactly the global indices of the
  particles at squared distance at most \<open>radius\<^sup>2\<close> from the centre. This is a statement in
  real arithmetic: the code compares the rounded float64 sum of squares with the rounded
  \<^verbatim>\<open>radius*radius\<close> and scales the rounded corners, so for a particle within rounding error
  of the surface of the sphere its answer can differ.
\<close>

theorem query_radius_exact:
  assumes "argsort_ok ps" and "init ps l0 ls res = Inr m" and "res ^ 3 \<le> 2 ^ 31"
    and "0 \<le> radius"
    and "corner_in_int32 m (cx + radius, cy + radius, cz + radius)"
  shows "\<exists>idx. query_radius m (cx, cy, cz) radius (shared_full (l0 # ls)) = Inr idx \<and>
           set idx = {x. x < length (shared_full (l0 # ls)) \<and>
                         r2 (cx, cy, cz) (shared_full (l0 # ls) ! x) \<le> radius * radius}"
proof -
  let ?pos = "concat (l0 # ls)"
  let ?qmin = "(cx - radius, cy - radius, cz - radius)"
  let ?qmax = "(cx + radius, cy + radius, cz + radius)"
  let ?cells = "cell_numbers res (cell_coords res (pos_min m) (cell_size m) ?qmin)
                  (cell_coords res (pos_min m) (cell_size m) ?qmax)"
  let ?keep = "\<lambda>x. r2 (cx, cy, cz) (?pos ! x) \<le> radius * radius"
  note bres = build_resolution [OF assms(2)]
  note lay = built_layout [OF assms(1,2)]
  have rng: "\<forall>c\<in>set ?cells. 0 \<le> c \<and> c < res ^ 3"
    using cells_in_mesh [OF bres(1)] by blast
  moreover from build_histogram(1) [OF assms(2)] have "int (length (cell_count m)) = res ^ 3"
    by (simp add: lay(2))
  ultimately have rng': "\<forall>c\<in>set ?cells. 0 \<le> c \<and> c < int (length (cell_count m))"
    by simp
  have inb: "\<forall>x\<in>set (sort_idx m). x < length ?pos"
    by (simp only: lay(3)) simp
  from gather_radius_in_range [OF lay(1) inb rng', of "(cx, cy, cz)" radius] obtain idx where
    g: "gather_radius m (cx, cy, cz) radius ?pos ?cells = Inr idx"
    and cc: "concat idx = concat (map (\<lambda>c. filter ?keep (cell_members m (nat c))) ?cells)"
    by blast
  have q: "query_radius m (cx, cy, cz) radius ?pos = Inr (concat idx)"
    by (simp only: query_radius.simps Let_def bres(2) g bind_err.simps)
  have "set (concat idx) = (\<Union>c\<in>set ?cells. {x \<in> set (cell_members m (nat c)). ?keep x})"
    by (simp add: cc)
  also have "\<dots> = (\<Union>c\<in>set ?cells.
      {x. (x < length ?pos \<and> cell_index_of m (?pos ! x) = c) \<and> ?keep x})"
    using rng cell_members_set [OF assms(1,2)] by (intro SUP_cong refl) auto
  also have "\<dots> = {x. x < length ?pos \<and> cell_index_of m (?pos ! x) \<in> set ?cells \<and> ?keep x}"
    by blast
  also have "\<dots> = {x. x < length ?pos \<and> ?keep x}"
  proof -
    have "cell_index_of m (?pos ! x) \<in> set ?cells" if "x < length ?pos" "?keep x" for x
    proof -
      from that(1) have "?pos ! x \<in> set ?pos" by (rule nth_mem)
      from particle_enumerated [OF assms(2,3) this r2_box [OF assms(4) that(2)] assms(5)]
      show ?thesis .
    qed
    then show ?thesis by blast
  qed
  finally show ?thesis
    unfolding shared_full_def using q by blast
qed


text \<open>
  Both results apply to scenario A; the second gives scenario C of the specification, the
  sphere of radius 0.1 about (0.15, 0.15, 0.15).
\<close>

lemma corner_scenario_A:
  "corner_in_int32 scenario_A_built (3 / 2, 3 / 2, 3 / 2)"
  "corner_in_int32 scenario_A_built (15 / 100 + 1 / 10, 15 / 100 + 1 / 10, 15 / 100 + 1 / 10)"
  by (simp_all add: corner_in_int32_def axis_in_int32_def scenario_A_built_def)

lemma query_superset_scenario_A:
  "\<exists>idx. query scenario_A_built (0, 0, 0) (3 / 2, 3 / 2, 3 / 2) = Inr idx \<and>
     (\<forall>x. x < length (shared_full [scenario_A]) \<and>
          vle (0, 0, 0) (shared_full [scenario_A] ! x) \<and>
          vle (shared_full [scenario_A] ! x) (3 / 2, 3 / 2, 3 / 2)
          \<longrightarrow> x \<in> set idx)"
  using query_superset [OF argsort_stable_ok build_scenario_A _ corner_scenario_A(1),
      of "(0, 0, 0)"]
  by auto

lemma query_radius_scenario_C:
  "\<exists>idx. query_radius scenario_A_built (15 / 100, 15 / 100, 15 / 100) (1 / 10)
            (shared_full [scenario_A]) = Inr idx \<and>
         set idx = {x. x < length (shared_full [scenario_A]) \<and>
                       r2 (15 / 100, 15 / 100, 15 / 100) (shared_full [scenario_A] ! x)
                         \<le> 1 / 10 * (1 / 10)}"
  using query_radius_exact [OF argsort_stable_ok build_scenario_A _ _ corner_scenario_A(2)]
  by simp

subsection \<open>Queries that reach beyond the int32 range\<close>

text \<open>
  C1, at an input where the code and the claim part. The two particles of \<open>thin_slab\<close>
  are built into a mesh with resolution 2; the cell size along z is \<open>5 \<times> 10\<^sup>-\<^sup>1\<^sup>0\<close>. For the
  sphere of radius 2 about the origin the upper corner is \<open>4 \<times> 10\<^sup>9\<close> cell sizes above
  \<open>pos_min\<close> along z, which is not an int32: the cast gives the smallest int32, the clip
  makes it 0, and only the cells with z coordinate 0 are visited. Particle 1, at squared
  distance \<open>2 + 10\<^sup>-\<^sup>1\<^sup>8\<close> from the centre and in cell 7, is not returned.
\<close>

theorem query_radius_thin_slab:
  "init argsort_stable thin_slab [] 2 = Inr thin_slab_mesh \<and>
   query_radius thin_slab_mesh (0, 0, 0) 2 (shared_full [thin_slab]) = Inr [0] \<and>
   1 < length (shared_full [thin_slab]) \<and>
   r2 (0, 0, 0) (shared_full [thin_slab] ! 1) \<le> 2 * 2"
proof -
  have "query_radius thin_slab_mesh (0, 0, 0) 2 (shared_full [thin_slab]) = Inr [0]"
    unfolding thin_slab_mesh_def thin_slab_def by code_simp
  moreover have "r2 (0, 0, 0) (shared_full [thin_slab] ! 1) \<le> 2 * 2"
    unfolding thin_slab_def by code_simp
  ultimately show ?thesis
    using build_thin_slab by (simp add: thin_slab_def shared_full_def)
qed

text \<open>
  C2, at the same mesh: the box from (-2,-2,-2) to (2,2,2) contains particle 1, and
  \<^verbatim>\<open>query\<close> returns particle 0 only.
\<close>

theorem query_thin_slab:
  "init argsort_stable thin_slab [] 2 = Inr thin_slab_mesh \<and>
   query thin_slab_mesh (- 2, - 2, - 2) (2, 2, 2) = Inr [0] \<and>
   1 < length (shared_full [thin_slab]) \<and>
   vle (- 2, - 2, - 2) (shared_full [thin_slab] ! 1) \<and>
   vlt (shared_full [thin_slab] ! 1) (2, 2, 2)"
proof -
  have "query thin_slab_mesh (- 2, - 2, - 2) (2, 2, 2) = Inr [0]"
    unfolding thin_slab_mesh_def by code_simp
  moreover have "vle (- 2, - 2, - 2) (shared_full [thin_slab] ! 1) \<and>
      vlt (shared_full [thin_slab] ! 1) (2, 2, 2)"
    unfolding thin_slab_def vle_def vlt_def shared_full_def by simp
  ultimately show ?thesis
    using build_thin_slab by (simp add: thin_slab_def shared_full_def)
qed

end
